theory Spec2Isabelle
  imports Complex_Main "HOL-Library.Multiset" "HOL-Library.Word"
begin

section \<open>The vertex queue of \<open>voronoidiagram.hpp\<close>\<close>

text \<open>
  Vertex and face descriptors are handles into the half-edge graph; they are
  modelled as natural numbers. A half-edge is named by its source and its target. A \<open>double\<close> is modelled as a real number: the order
  \<open>fabs a < fabs b\<close> on finite doubles is the order of the reals they denote (NaN is
  outside the model).
\<close>

type_synonym HEVertex = nat
type_synonym HEFace = nat
type_synonym HEEdge = "HEVertex \<times> HEVertex"

type_synonym VertexDetPair = "HEVertex \<times> real"

text \<open>\<open>abs_comparison::operator()\<close>: \<open>fabs(lhs.second) < fabs(rhs.second)\<close>.\<close>

definition abs_comparison :: "VertexDetPair \<Rightarrow> VertexDetPair \<Rightarrow> bool" where
  "abs_comparison lhs rhs = (\<bar>snd lhs\<bar> < \<bar>snd rhs\<bar>)"

text \<open>
  \<open>VertexQueue\<close> is \<open>std::priority_queue<VertexDetPair, std::vector<VertexDetPair>,
  abs_comparison>\<close>: a vector kept as a binary heap. \<open>push\<close> is \<open>push_back\<close> followed
  by \<open>std::push_heap\<close>, \<open>pop\<close> is \<open>std::pop_heap\<close> followed by \<open>pop_back\<close>, and
  \<open>top\<close> is \<open>front\<close>. The two heap algorithms follow libstdc++ (\<open>stl_heap.h\<close>):
  \<open>__push_heap\<close> moves a hole up while the parent compares less than the value, and
  \<open>__adjust_heap\<close> moves the hole down along the larger child to the bottom and then
  calls \<open>__push_heap\<close>.
\<close>

type_synonym VertexQueue = "VertexDetPair list"

function push_heap_loop ::
  "VertexDetPair list \<Rightarrow> nat \<Rightarrow> nat \<Rightarrow> VertexDetPair \<Rightarrow> VertexDetPair list" where
  "push_heap_loop first holeIndex topIndex val =
     (let parent = (holeIndex - 1) div 2 in
      if holeIndex > topIndex \<and> abs_comparison (first ! parent) val
      then push_heap_loop (first[holeIndex := first ! parent]) parent topIndex val
      else first[holeIndex := val])"
  by pat_completeness auto
termination
  by (relation "measure (\<lambda>(first, holeIndex, topIndex, val). holeIndex)") auto

declare push_heap_loop.simps [simp del]

definition push_heap :: "VertexDetPair list \<Rightarrow> VertexDetPair list" where
  "push_heap c =
     (if c = [] then c
      else push_heap_loop c (length c - 1) 0 (c ! (length c - 1)))"

definition push :: "VertexDetPair \<Rightarrow> VertexQueue \<Rightarrow> VertexQueue" where
  "push x c = push_heap (c @ [x])"

text \<open>
  The \<open>while\<close> loop of \<open>__adjust_heap\<close>; it returns the vector, the hole and
  \<open>secondChild\<close> as the loop leaves them.
\<close>

function adjust_heap_loop ::
  "VertexDetPair list \<Rightarrow> nat \<Rightarrow> nat \<Rightarrow> nat \<Rightarrow> VertexDetPair list \<times> nat \<times> nat" where
  "adjust_heap_loop first holeIndex secondChild len =
     (if secondChild < (len - 1) div 2
      then (let sc = 2 * (secondChild + 1);
                sc' = (if abs_comparison (first ! sc) (first ! (sc - 1)) then sc - 1 else sc)
            in adjust_heap_loop (first[holeIndex := first ! sc']) sc' sc' len)
      else (first, holeIndex, secondChild))"
  by pat_completeness auto
termination
  by (relation "measure (\<lambda>(first, holeIndex, secondChild, len). len - secondChild)") auto

declare adjust_heap_loop.simps [simp del]

definition adjust_heap ::
  "VertexDetPair list \<Rightarrow> nat \<Rightarrow> nat \<Rightarrow> VertexDetPair \<Rightarrow> VertexDetPair list" where
  "adjust_heap first holeIndex len val =
     (let topIndex = holeIndex in
      case adjust_heap_loop first holeIndex holeIndex len of
        (first1, hole1, sc1) \<Rightarrow>
          if len mod 2 = 0 \<and> sc1 = (len - 2) div 2
          then (let sc2 = 2 * (sc1 + 1)
                in push_heap_loop (first1[hole1 := first1 ! (sc2 - 1)]) (sc2 - 1) topIndex val)
          else push_heap_loop first1 hole1 topIndex val)"

text \<open>
  \<open>std::pop_heap\<close>: with more than one element, the last slot receives the old front
  and the old last value is sifted into the remaining range.
\<close>

definition pop_heap :: "VertexDetPair list \<Rightarrow> VertexDetPair list" where
  "pop_heap c =
     (if length c > 1
      then (let l = length c - 1; val = c ! l
            in adjust_heap (c[l := c ! 0]) 0 l val)
      else c)"

text \<open>\<open>top\<close> and \<open>pop\<close> on an empty queue are undefined behaviour: \<open>None\<close>.\<close>

definition top :: "VertexQueue \<Rightarrow> VertexDetPair option" where
  "top c = (if c = [] then None else Some (c ! 0))"

definition pop :: "VertexQueue \<Rightarrow> VertexQueue option" where
  "pop c = (if c = [] then None else Some (butlast (pop_heap c)))"


text \<open>The heap order of the vector: no element compares greater than its parent.\<close>

definition heap_upto :: "nat \<Rightarrow> VertexDetPair list \<Rightarrow> bool" where
  "heap_upto n c = (\<forall>i. 0 < i \<and> i < n \<longrightarrow> \<not> abs_comparison (c ! ((i - 1) div 2)) (c ! i))"

definition is_heap :: "VertexDetPair list \<Rightarrow> bool" where
  "is_heap c = heap_upto (length c) c"

section \<open>Points and \<open>SplitPointError\<close>\<close>

text \<open>
  Modelled from the spec: \<open>point.hpp\<close> is not among the sources. A \<open>Point\<close> is a pair
  of coordinates, with the vector operations the header uses (difference, sum, scaling
  by a \<open>double\<close>, \<open>dot\<close>, \<open>norm\<close>) and the right-of-line test \<open>is_right\<close>: \<open>p\<close> is
  right of the directed line from \<open>p1\<close> to \<open>p2\<close> when the cross product of
  \<open>p2 - p1\<close> and \<open>p - p1\<close> is negative. Coordinates are real numbers; rounding is
  not modelled.
\<close>

type_synonym Point = "real \<times> real"

definition point_sub :: "Point \<Rightarrow> Point \<Rightarrow> Point" where
  "point_sub a b = (fst a - fst b, snd a - snd b)"

definition point_add :: "Point \<Rightarrow> Point \<Rightarrow> Point" where
  "point_add a b = (fst a + fst b, snd a + snd b)"

definition point_scale :: "real \<Rightarrow> Point \<Rightarrow> Point" where
  "point_scale a p = (a * fst p, a * snd p)"

definition dot :: "Point \<Rightarrow> Point \<Rightarrow> real" where
  "dot a b = fst a * fst b + snd a * snd b"

definition point_norm :: "Point \<Rightarrow> real" where
  "point_norm a = sqrt (fst a * fst a + snd a * snd a)"

definition is_right :: "Point \<Rightarrow> Point \<Rightarrow> Point \<Rightarrow> bool" where
  "is_right p p1 p2 =
     ((fst p2 - fst p1) * (snd p - snd p1) - (fst p - fst p1) * (snd p2 - snd p1) < 0)"

text \<open>
  \<open>SplitPointError::operator()\<close>. The curve of the split edge, \<open>vd->g[edge].point\<close>,
  is the parameter \<open>edge_point\<close>. The division has no guard in the source; the model
  makes the zero divisor a result of its own.
\<close>

datatype arith_error = DivisionByZero

definition SplitPointError ::
  "(real \<Rightarrow> Point) \<Rightarrow> Point \<Rightarrow> Point \<Rightarrow> real \<Rightarrow> arith_error + real" where
  "SplitPointError edge_point p1 p2 t =
     (let p = edge_point t;
          d = dot (point_sub p2 p1) (point_sub p2 p1)
      in if d = 0 then Inl DivisionByZero
         else (let u = dot (point_sub p p1) (point_sub p2 p1) / d;
                   proj = point_add p1 (point_scale u (point_sub p2 p1));
                   dist = point_norm (point_sub proj p);
                   sign = (if is_right p p1 p2 then 1 else - 1)
               in Inr (sign * dist)))"



section \<open>The half-edge graph and the diagram object\<close>

text \<open>
  Modelled from the spec: \<open>graph.hpp\<close>, with \<open>HEGraph\<close>, \<open>VoronoiVertex\<close> and the
  face properties, is not among the sources. The data model follows the spec's
  section 3: a vertex carries a position, a clearance radius, a status, a type and a
  monotonically assigned index; a face carries its site and an incidence flag. The
  graph is an arena: a handle is an index into the store, a deleted vertex leaves
  \<open>None\<close> in its slot, and faces are never destroyed. The half-edges of a face are
  represented by what iterating its cycle yields, the cyclic list of its vertices
  (\<open>boundary\<close>); two vertices are joined by an edge when they are consecutive on a
  boundary.
\<close>

datatype VoronoiVertexStatus = OUT | IN | UNDECIDED | NEW

datatype VoronoiVertexType = OUTER | NORMAL | POINTSITE | ENDPOINT | SEPPOINT | APEX | SPLIT

datatype VoronoiFaceStatus = INCIDENT | NONINCIDENT

datatype Site = PointSite Point | LineSite Point Point

record VoronoiVertex =
  status :: VoronoiVertexStatus
  vtype :: VoronoiVertexType
  index :: int
  position :: Point
  clearance :: real
  in_queue :: bool

record VoronoiFace =
  site :: Site
  fstatus :: VoronoiFaceStatus
  boundary :: "HEVertex list"

record HEGraph =
  vertices :: "VoronoiVertex option list"
  faces :: "VoronoiFace list"

text \<open>\<open>g.num_vertices()\<close>: the number of vertices stored in the graph.\<close>

definition g_num_vertices :: "HEGraph \<Rightarrow> nat" where
  "g_num_vertices gr = length (filter (\<lambda>x. x \<noteq> None) (vertices gr))"

text \<open>
  Modelled from the spec: the face grid (\<open>FaceGrid\<close>, only forward-declared in the
  header) is built with a bin count and keeps the registered faces with the positions
  of their sites.
\<close>

record FaceGrid =
  grid_bins :: nat
  grid_faces :: "(HEFace \<times> Point) list"

text \<open>
  The data members of \<open>class VoronoiDiagram\<close>, in the order of the header. The three
  scalar members \<open>far_radius\<close>, \<open>num_psites\<close> and \<open>num_lsites\<close> and the helper
  pointers hold an indeterminate value until a constructor assigns them: \<open>None\<close>.
  An \<open>int\<close> is a 32-bit two's-complement word. The checker and the positioner
  (\<open>vd_checker\<close>, \<open>vpos\<close>) have no state of their own and are left out.
\<close>

record VoronoiDiagram =
  fgrid :: "FaceGrid option"
  g :: HEGraph
  far_radius :: "real option"
  num_psites :: "32 word option"
  num_lsites :: "32 word option"
  incident_faces :: "HEFace list"
  modified_vertices :: "HEVertex list"
  v0 :: "HEVertex list"
  vertexQueue :: VertexQueue
  vertex_map :: "(int \<times> HEVertex) list"

text \<open>
  The default constructor \<open>VoronoiDiagram() {}\<close>: no member initialiser and an empty
  body. The class-type members (\<open>g\<close>, the vectors, the queue, the map) are
  default-constructed empty; the scalars and pointers are left indeterminate.
\<close>

definition VoronoiDiagram_default :: VoronoiDiagram where
  "VoronoiDiagram_default =
     \<lparr> fgrid = None,
       g = \<lparr> vertices = [], faces = [] \<rparr>,
       far_radius = None, num_psites = None, num_lsites = None,
       incident_faces = [], modified_vertices = [], v0 = [],
       vertexQueue = [], vertex_map = [] \<rparr>"

text \<open>
  The accessors of the header. Reading an indeterminate member is undefined
  behaviour: the accessor has no value then.
\<close>

definition get_far_radius :: "VoronoiDiagram \<Rightarrow> real option" where
  "get_far_radius d = far_radius d"

definition num_point_sites :: "VoronoiDiagram \<Rightarrow> 32 word option" where
  "num_point_sites d = map_option (\<lambda>n. n - 3) (num_psites d)"

definition num_line_sites :: "VoronoiDiagram \<Rightarrow> 32 word option" where
  "num_line_sites d = num_lsites d"

definition num_vertices :: "VoronoiDiagram \<Rightarrow> 32 word option" where
  "num_vertices d =
     map_option (\<lambda>n. word_of_nat (g_num_vertices (g d)) - n) (num_point_sites d)"

section \<open>The incremental update of the diagram\<close>

subsection \<open>Cycles and arcs\<close>

text \<open>
  The edges of a cycle, the number of edges that enter a set of vertices, and a set
  that is one contiguous arc of the cycle: some rotation of the cycle is a non-empty
  block of the set followed by a non-empty block outside it.
\<close>

definition cycle_edges :: "'a list \<Rightarrow> ('a \<times> 'a) list" where
  "cycle_edges xs = zip xs (rotate1 xs)"

definition in_arcs :: "('a \<Rightarrow> bool) \<Rightarrow> 'a list \<Rightarrow> nat" where
  "in_arcs P xs = length (filter (\<lambda>(a, b). \<not> P a \<and> P b) (cycle_edges xs))"

definition contiguous_arc :: "('a \<Rightarrow> bool) \<Rightarrow> 'a list \<Rightarrow> bool" where
  "contiguous_arc P xs =
     (\<exists>k<length xs. \<exists>n<length xs. 0 < n \<and>
        list_all P (take n (rotate k xs)) \<and> list_all (\<lambda>x. \<not> P x) (drop n (rotate k xs)))"

text \<open>
  Modelled from the spec: the external collaborators of section 6 (the in-circle
  predicate of section 4.6, the vertex positioner, the parametric curve of an edge and
  the bracketed root finder) are numeric code outside the header. They are parameters
  of the model and see geometric data only: sites, positions and clearance radii.
\<close>

record Collaborators =
  in_circle :: "Site \<Rightarrow> Point \<Rightarrow> real \<Rightarrow> real"
  positioner :: "Site list \<Rightarrow> Site \<Rightarrow> Point \<Rightarrow> Point \<Rightarrow> Point \<times> real"
  edge_curve :: "Point \<Rightarrow> Point \<Rightarrow> real \<Rightarrow> Point"
  root_finder :: "(real \<Rightarrow> real) \<Rightarrow> real"

subsection \<open>Queries and updates of the graph\<close>

text \<open>
  Modelled from the spec: the operations section 4.1 lists for the graph. A read or
  an update through a handle that names no stored vertex or face is written out: the
  read yields \<open>None\<close> and the update leaves the graph as it is.
\<close>

definition g_vertex :: "HEGraph \<Rightarrow> HEVertex \<Rightarrow> VoronoiVertex option" where
  "g_vertex gr v = (if v < length (vertices gr) then vertices gr ! v else None)"

definition g_face :: "HEGraph \<Rightarrow> HEFace \<Rightarrow> VoronoiFace option" where
  "g_face gr f = (if f < length (faces gr) then Some (faces gr ! f) else None)"

definition g_update_vertex ::
  "HEVertex \<Rightarrow> (VoronoiVertex \<Rightarrow> VoronoiVertex) \<Rightarrow> HEGraph \<Rightarrow> HEGraph" where
  "g_update_vertex v upd gr =
     (case g_vertex gr v of
        None \<Rightarrow> gr
      | Some x \<Rightarrow> gr\<lparr>vertices := (vertices gr)[v := Some (upd x)]\<rparr>)"

definition g_update_face ::
  "HEFace \<Rightarrow> (VoronoiFace \<Rightarrow> VoronoiFace) \<Rightarrow> HEGraph \<Rightarrow> HEGraph" where
  "g_update_face f upd gr =
     (case g_face gr f of
        None \<Rightarrow> gr
      | Some x \<Rightarrow> gr\<lparr>faces := (faces gr)[f := upd x]\<rparr>)"

definition has_status :: "HEGraph \<Rightarrow> VoronoiVertexStatus \<Rightarrow> HEVertex \<Rightarrow> bool" where
  "has_status gr st v = (case g_vertex gr v of None \<Rightarrow> False | Some x \<Rightarrow> status x = st)"

definition face_vertices :: "HEGraph \<Rightarrow> HEFace \<Rightarrow> HEVertex list" where
  "face_vertices gr f = (case g_face gr f of None \<Rightarrow> [] | Some x \<Rightarrow> boundary x)"

definition adjacent_faces :: "HEGraph \<Rightarrow> HEVertex \<Rightarrow> HEFace list" where
  "adjacent_faces gr v =
     filter (\<lambda>f. v \<in> set (face_vertices gr f)) [0..<length (faces gr)]"

definition cycle_neighbours :: "HEVertex \<Rightarrow> HEVertex list \<Rightarrow> HEVertex list" where
  "cycle_neighbours v xs =
     concat (map (\<lambda>(a, b). (if a = v then [b] else []) @ (if b = v then [a] else []))
                 (cycle_edges xs))"

definition adjacent_vertices :: "HEGraph \<Rightarrow> HEVertex \<Rightarrow> HEVertex list" where
  "adjacent_vertices gr v =
     remdups (concat (map (\<lambda>fc. cycle_neighbours v (boundary fc)) (faces gr)))"

subsection \<open>The predicates C4 and C5\<close>

text \<open>
  Modelled from the spec: \<open>predicate_c4\<close> and \<open>predicate_c5\<close> are declared in the
  header and defined elsewhere. Section 4.3: \<open>v\<close> is accepted only if, for each face
  incident to \<open>v\<close>, the IN-vertices of the face, \<open>v\<close> included, induce a connected
  subgraph of the boundary cycle (C4), and at least one vertex outside the IN-set
  remains on each such face once \<open>v\<close> is accepted (C5). A subset of a cycle induces a
  connected subgraph when the cycle enters it at most once: \<open>in_arcs\<close> counts the
  edges of the cycle that lead from outside the set into it.
\<close>

definition predicate_c4 :: "HEGraph \<Rightarrow> HEVertex \<Rightarrow> bool" where
  "predicate_c4 gr v =
     list_all (\<lambda>f. in_arcs (\<lambda>w. w = v \<or> has_status gr IN w) (face_vertices gr f) \<le> 1)
              (adjacent_faces gr v)"

definition predicate_c5 :: "HEGraph \<Rightarrow> HEVertex \<Rightarrow> bool" where
  "predicate_c5 gr v =
     list_all (\<lambda>f. list_ex (\<lambda>w. \<not> (w = v \<or> has_status gr IN w)) (face_vertices gr f))
              (adjacent_faces gr v)"

subsection \<open>Marking and the flood fill\<close>

text \<open>
  Modelled from the spec: \<open>mark_adjacent_faces\<close>, \<open>mark_vertex\<close> and
  \<open>augment_vertex_set\<close> are declared in the header and defined elsewhere. Section
  4.3: when \<open>v\<close> is marked IN, every face incident to \<open>v\<close> is marked INCIDENT and
  appended to \<open>incident_faces\<close> if not already there. Every vertex whose status is
  set is recorded in \<open>modified_vertices\<close>, the header's list of the in-vertices and
  out-vertices that need to be reset.
\<close>

definition set_status :: "HEVertex \<Rightarrow> VoronoiVertexStatus \<Rightarrow> VoronoiDiagram \<Rightarrow> VoronoiDiagram" where
  "set_status v st d =
     d\<lparr> g := g_update_vertex v (\<lambda>x. x\<lparr>status := st\<rparr>) (g d),
        modified_vertices := modified_vertices d @ [v] \<rparr>"

definition mark_face :: "HEFace \<Rightarrow> VoronoiDiagram \<Rightarrow> VoronoiDiagram" where
  "mark_face f d =
     d\<lparr> g := g_update_face f (\<lambda>x. x\<lparr>fstatus := INCIDENT\<rparr>) (g d),
        incident_faces :=
          (if f \<in> set (incident_faces d) then incident_faces d else incident_faces d @ [f]) \<rparr>"

definition mark_adjacent_faces :: "HEVertex \<Rightarrow> VoronoiDiagram \<Rightarrow> VoronoiDiagram" where
  "mark_adjacent_faces v d = fold mark_face (adjacent_faces (g d) v) d"

definition mark_vertex :: "HEVertex \<Rightarrow> VoronoiDiagram \<Rightarrow> VoronoiDiagram" where
  "mark_vertex v d =
     mark_adjacent_faces v ((set_status v IN d)\<lparr> v0 := v0 d @ [v] \<rparr>)"

text \<open>Modelled from the spec: the predicate of a stored vertex against the new site.\<close>

definition vertex_predicate :: "Collaborators \<Rightarrow> Site \<Rightarrow> HEGraph \<Rightarrow> HEVertex \<Rightarrow> real" where
  "vertex_predicate env s gr v =
     (case g_vertex gr v of
        None \<Rightarrow> 0
      | Some x \<Rightarrow> in_circle env s (position x) (clearance x))"

text \<open>
  Modelled from the spec: a neighbour that is still UNDECIDED and not yet queued is pushed with its predicate
  and marked as queued.
\<close>

definition queue_vertex :: "Collaborators \<Rightarrow> Site \<Rightarrow> HEVertex \<Rightarrow> VoronoiDiagram \<Rightarrow> VoronoiDiagram" where
  "queue_vertex env s u d =
     (case g_vertex (g d) u of
        None \<Rightarrow> d
      | Some x \<Rightarrow>
          if status x = UNDECIDED \<and> \<not> in_queue x
          then d\<lparr> g := g_update_vertex u (\<lambda>y. y\<lparr>in_queue := True\<rparr>) (g d),
                  vertexQueue := push (u, vertex_predicate env s (g d) u) (vertexQueue d) \<rparr>
          else d)"

text \<open>
  Modelled from the spec: one iteration of section 4.3 on the popped vertex \<open>v\<close>: \<open>v\<close> is marked OUT if
  accepting it would violate C4 or C5 and is marked IN and added to \<open>v0\<close> otherwise;
  then its neighbours are queued.
\<close>

definition decide_vertex :: "HEVertex \<Rightarrow> VoronoiDiagram \<Rightarrow> VoronoiDiagram" where
  "decide_vertex v d =
     (if predicate_c4 (g d) v \<and> predicate_c5 (g d) v
      then mark_vertex v d
      else set_status v OUT d)"

definition augment_step :: "Collaborators \<Rightarrow> Site \<Rightarrow> VoronoiDiagram \<Rightarrow> VoronoiDiagram option" where
  "augment_step env s d =
     (case top (vertexQueue d) of
        None \<Rightarrow> None
      | Some (v, h) \<Rightarrow>
          (case pop (vertexQueue d) of
             None \<Rightarrow> None
           | Some q \<Rightarrow>
               (let d1 = decide_vertex v (d\<lparr>vertexQueue := q\<rparr>)
                in Some (fold (queue_vertex env s) (adjacent_vertices (g d1) v) d1))))"

text \<open>The measure of the flood fill: every iteration pops one vertex, and every push
  marks one more vertex as queued.\<close>

definition unqueued :: "HEGraph \<Rightarrow> nat" where
  "unqueued gr =
     length (filter (\<lambda>x. case x of None \<Rightarrow> False | Some y \<Rightarrow> \<not> in_queue y) (vertices gr))"

definition fill_measure :: "VoronoiDiagram \<Rightarrow> nat" where
  "fill_measure d = 2 * unqueued (g d) + length (vertexQueue d)"

function augment_vertex_set :: "Collaborators \<Rightarrow> Site \<Rightarrow> VoronoiDiagram \<Rightarrow> VoronoiDiagram" where
  "augment_vertex_set env s d =
     (case augment_step env s d of
        None \<Rightarrow> d
      | Some d' \<Rightarrow> augment_vertex_set env s d')"
  by pat_completeness auto

text \<open>On every face the IN-vertices are absent or form one contiguous arc that leaves
  a vertex of the face outside.\<close>

definition face_arcs_ok :: "HEGraph \<Rightarrow> bool" where
  "face_arcs_ok gr =
     list_all (\<lambda>fc. list_all (\<lambda>w. \<not> has_status gr IN w) (boundary fc) \<or>
                    contiguous_arc (has_status gr IN) (boundary fc))
              (faces gr)"

text \<open>What the flood fill leaves alone: statuses and boundaries.\<close>

definition same_marks :: "HEGraph \<Rightarrow> HEGraph \<Rightarrow> bool" where
  "same_marks gr gr' =
     ((\<forall>st w. has_status gr' st w = has_status gr st w) \<and>
      map boundary (faces gr') = map boundary (faces gr))"

text \<open>A concrete set of collaborators and a small diagram, for examples.\<close>

definition example_env :: Collaborators where
  "example_env =
     \<lparr> in_circle = (\<lambda>s p r. case s of
                        PointSite q \<Rightarrow> r * r - dot (point_sub p q) (point_sub p q)
                      | LineSite a b \<Rightarrow> r * r - dot (point_sub p a) (point_sub p a)),
       positioner = (\<lambda>fs s p q. (point_scale (1 / 2) (point_add p q), 1)),
       edge_curve = (\<lambda>p q t. point_add p (point_scale t (point_sub q p))),
       root_finder = (\<lambda>f. 1 / 2) \<rparr>"



subsection \<open>Vertex creation and the static vertex counter\<close>

text \<open>
  Modelled from the spec: \<open>VoronoiVertex\<close> is not among the sources. A vertex carries
  a monotonically assigned index; the header's static \<open>reset_vertex_count()\<close> calls
  the static \<open>VoronoiVertex::reset_count()\<close>, so the counter the indices come from
  belongs to the class and not to a diagram. Every operation that creates vertices
  takes the counter and returns it with the diagram.
\<close>

definition reset_vertex_count :: "int \<Rightarrow> int" where
  "reset_vertex_count cnt = 0"

definition new_vertex ::
  "Point \<Rightarrow> VoronoiVertexStatus \<Rightarrow> VoronoiVertexType \<Rightarrow> real \<Rightarrow> int \<times> HEGraph \<Rightarrow>
   HEVertex \<times> int \<times> HEGraph" where
  "new_vertex p st ty r cg =
     (case cg of (cnt, gr) \<Rightarrow>
        (length (vertices gr),
         cnt + 1,
         gr\<lparr>vertices := vertices gr @
              [Some \<lparr> status = st, vtype = ty, index = cnt, position = p,
                      clearance = r, in_queue = False \<rparr>]\<rparr>))"

definition add_face :: "Site \<Rightarrow> HEGraph \<Rightarrow> HEFace \<times> HEGraph" where
  "add_face s gr =
     (length (faces gr),
      gr\<lparr>faces := faces gr @ [\<lparr> site = s, fstatus = NONINCIDENT, boundary = [] \<rparr>]\<rparr>)"

subsection \<open>Construction\<close>

text \<open>
  Modelled from the spec: the two-argument constructor and \<open>initialize()\<close> are
  declared in the header and defined elsewhere. The constructor takes the far radius
  and the bin count of the face grid; \<open>initialize()\<close> creates three generators
  outside the far circle, the vertex where their faces meet and three outer vertices
  on the bisectors, far from the circle. The generators count as point sites, so
  \<open>num_psites\<close> starts at 3, the offset \<open>num_point_sites()\<close> subtracts.
\<close>

definition initialize :: "real \<Rightarrow> int \<times> VoronoiDiagram \<Rightarrow> int \<times> VoronoiDiagram" where
  "initialize far cd =
     (case cd of (cnt, d) \<Rightarrow>
        let gen1 = (0, 5 * far); gen2 = (- 4 * far, - 3 * far); gen3 = (4 * far, - 3 * far);
            out1 = (0, - 30 * far); out2 = (60 * far, 30 * far); out3 = (- 60 * far, 30 * far);
            (v00, c1, g1) = new_vertex (0, 0) UNDECIDED NORMAL (5 * \<bar>far\<bar>) (cnt, g d);
            (v01, c2, g2) = new_vertex out1 UNDECIDED OUTER (point_norm (point_sub out1 gen2)) (c1, g1);
            (v02, c3, g3) = new_vertex out2 UNDECIDED OUTER (point_norm (point_sub out2 gen3)) (c2, g2);
            (v03, c4, g4) = new_vertex out3 UNDECIDED OUTER (point_norm (point_sub out3 gen1)) (c3, g3);
            (s1, c5, g5) = new_vertex gen1 UNDECIDED POINTSITE 0 (c4, g4);
            (s2, c6, g6) = new_vertex gen2 UNDECIDED POINTSITE 0 (c5, g5);
            (s3, c7, g7) = new_vertex gen3 UNDECIDED POINTSITE 0 (c6, g6);
            (f1, g8) = add_face (PointSite gen1) g7;
            (f2, g9) = add_face (PointSite gen2) g8;
            (f3, g10) = add_face (PointSite gen3) g9;
            g11 = g_update_face f1 (\<lambda>x. x\<lparr>boundary := [v00, v02, v03]\<rparr>) g10;
            g12 = g_update_face f2 (\<lambda>x. x\<lparr>boundary := [v00, v03, v01]\<rparr>) g11;
            g13 = g_update_face f3 (\<lambda>x. x\<lparr>boundary := [v00, v01, v02]\<rparr>) g12
        in (c7, d\<lparr> g := g13,
                   fgrid := map_option
                     (\<lambda>gr. gr\<lparr>grid_faces := grid_faces gr @ [(f1, gen1), (f2, gen2), (f3, gen3)]\<rparr>)
                     (fgrid d),
                   num_psites := Some 3 \<rparr>))"

definition VoronoiDiagram_ctor :: "real \<Rightarrow> nat \<Rightarrow> int \<Rightarrow> int \<times> VoronoiDiagram" where
  "VoronoiDiagram_ctor far n_bins cnt =
     initialize far
       (cnt, VoronoiDiagram_default\<lparr> fgrid := Some \<lparr> grid_bins = n_bins, grid_faces = [] \<rparr>,
                                      far_radius := Some far,
                                        num_lsites := Some 0 \<rparr>)"

subsection \<open>The steps of an insertion\<close>

text \<open>
  Modelled from the spec: the insertion operations and their steps are declared in the
  header and defined elsewhere; the definitions follow sections 4.2 to 4.5 step by step.
\<close>

datatype insert_error = InvalidSite

text \<open>Modelled from the spec: scratch state is cleared at the start of each insertion (section 9). The map of
  handles is left alone: \<open>insert_line_site\<close> looks up the handles of earlier point
  insertions in it.\<close>

definition clear_scratch :: "VoronoiDiagram \<Rightarrow> VoronoiDiagram" where
  "clear_scratch d =
     d\<lparr> incident_faces := [], modified_vertices := [], v0 := [], vertexQueue := [] \<rparr>"

text \<open>Modelled from the spec: the preconditions of \<open>insert_point_site\<close> (section 6): the point lies strictly
  inside the far circle and coincides with no existing point site.\<close>

definition coincident_point_site :: "HEGraph \<Rightarrow> Point \<Rightarrow> bool" where
  "coincident_point_site gr p = list_ex (\<lambda>fc. site fc = PointSite p) (faces gr)"

definition valid_point_site :: "VoronoiDiagram \<Rightarrow> Point \<Rightarrow> bool" where
  "valid_point_site d p =
     (case far_radius d of
        None \<Rightarrow> False
      | Some R \<Rightarrow> point_norm p < R \<and> \<not> coincident_point_site (g d) p)"

text \<open>The first element with the largest key.\<close>

fun max_by :: "('a \<Rightarrow> real) \<Rightarrow> 'a list \<Rightarrow> 'a option" where
  "max_by k [] = None"
| "max_by k (x # xs) =
     (case max_by k xs of
        None \<Rightarrow> Some x
      | Some y \<Rightarrow> if k x < k y then Some y else Some x)"

text \<open>Modelled from the spec: the face grid returns the registered face whose site is nearest to the query.\<close>

definition grid_find_closest_face :: "FaceGrid \<Rightarrow> Point \<Rightarrow> HEFace option" where
  "grid_find_closest_face gr p =
     map_option fst
       (max_by (\<lambda>(f, q). - dot (point_sub q p) (point_sub q p)) (grid_faces gr))"

text \<open>Modelled from the spec: \<open>in_region\<close>: for a segment, the slab between the perpendiculars through its
  end points.\<close>

definition in_region :: "Site \<Rightarrow> Point \<Rightarrow> bool" where
  "in_region s p =
     (case s of
        PointSite q \<Rightarrow> True
      | LineSite a b \<Rightarrow>
          0 \<le> dot (point_sub p a) (point_sub b a) \<and>
          dot (point_sub p a) (point_sub b a) \<le> dot (point_sub b a) (point_sub b a))"

text \<open>
  Modelled from the spec: \<open>find_seed_vertex\<close>: for a point site the vertex of the face with the largest
  predicate (section 4.2); for a segment a vertex of the face that passes the
  in-region test and whose predicate has the largest magnitude (section 4.4).
\<close>

definition find_seed_vertex :: "Collaborators \<Rightarrow> HEGraph \<Rightarrow> HEFace \<Rightarrow> Site \<Rightarrow> HEVertex option" where
  "find_seed_vertex env gr f s =
     (case s of
        PointSite q \<Rightarrow> max_by (vertex_predicate env s gr) (face_vertices gr f)
      | LineSite a b \<Rightarrow>
          max_by (\<lambda>v. \<bar>vertex_predicate env s gr v\<bar>)
            (filter (\<lambda>v. case g_vertex gr v of
                            None \<Rightarrow> False
                          | Some x \<Rightarrow> in_region s (position x))
                    (face_vertices gr f)))"

text \<open>Modelled from the spec: the seed is set to IN and pushed onto the queue with its predicate.\<close>

definition seed_vertex :: "Collaborators \<Rightarrow> Site \<Rightarrow> HEVertex \<Rightarrow> VoronoiDiagram \<Rightarrow> VoronoiDiagram" where
  "seed_vertex env s v d =
     (let d1 = set_status v IN d
      in d1\<lparr> g := g_update_vertex v (\<lambda>x. x\<lparr>in_queue := True\<rparr>) (g d1),
             vertexQueue := push (v, vertex_predicate env s (g d) v) (vertexQueue d1) \<rparr>)"

text \<open>Modelled from the spec: \<open>find_in_out_edges\<close>: the edges with one IN and one OUT end point.\<close>

definition find_in_out_edges :: "VoronoiDiagram \<Rightarrow> HEEdge list" where
  "find_in_out_edges d =
     concat (map (\<lambda>v. map (\<lambda>w. (v, w))
                         (filter (has_status (g d) OUT) (adjacent_vertices (g d) v)))
                 (v0 d))"

definition edge_faces :: "HEGraph \<Rightarrow> HEEdge \<Rightarrow> HEFace list" where
  "edge_faces gr e =
     filter (\<lambda>f. e \<in> set (cycle_edges (face_vertices gr f)) \<or>
                 (snd e, fst e) \<in> set (cycle_edges (face_vertices gr f)))
            [0..<length (faces gr)]"

text \<open>Modelled from the spec: \<open>add_vertex_in_edge\<close>: the vertex is put between the two ends of the edge on
  every boundary the edge lies on.\<close>

definition insert_in_cycle :: "HEVertex \<Rightarrow> HEEdge \<Rightarrow> HEVertex list \<Rightarrow> HEVertex list" where
  "insert_in_cycle n e xs =
     concat (map (\<lambda>(x, y). if (x, y) = e \<or> (y, x) = e then [x, n] else [x]) (cycle_edges xs))"

definition add_vertex_in_edge :: "HEVertex \<Rightarrow> HEEdge \<Rightarrow> HEGraph \<Rightarrow> HEGraph" where
  "add_vertex_in_edge v e gr =
     gr\<lparr>faces := map (\<lambda>fc. fc\<lparr>boundary := insert_in_cycle v e (boundary fc)\<rparr>) (faces gr)\<rparr>"

text \<open>
  Modelled from the spec: \<open>add_vertices\<close>: a NEW vertex on every edge with one IN and one OUT end point, at
  the position and with the clearance radius the positioner computes from the sites of
  the faces along the edge and the new site. The new vertex is recorded for the reset.
\<close>

definition add_new_vertex ::
  "Collaborators \<Rightarrow> Site \<Rightarrow> VoronoiVertexType \<Rightarrow> HEEdge \<Rightarrow> int \<times> VoronoiDiagram \<Rightarrow>
   int \<times> VoronoiDiagram" where
  "add_new_vertex env s ty e cd =
     (case cd of (cnt, d) \<Rightarrow>
        (case (g_vertex (g d) (fst e), g_vertex (g d) (snd e)) of
           (Some a, Some b) \<Rightarrow>
             (case positioner env (map (\<lambda>f. site (faces (g d) ! f)) (edge_faces (g d) e)) s
                     (position a) (position b) of
                (p, r) \<Rightarrow>
                  (case new_vertex p NEW ty r (cnt, g d) of
                     (n, c1, g1) \<Rightarrow>
                       (c1, d\<lparr> g := add_vertex_in_edge n e g1,
                               modified_vertices := modified_vertices d @ [n] \<rparr>)))
         | _ \<Rightarrow> cd))"

definition add_vertices :: "Collaborators \<Rightarrow> Site \<Rightarrow> int \<times> VoronoiDiagram \<Rightarrow> int \<times> VoronoiDiagram" where
  "add_vertices env s cd = fold (add_new_vertex env s NORMAL) (find_in_out_edges (snd cd)) cd"

text \<open>\<open>struct EdgeData\<close> of the header. The fields carry the prefix \<open>ed_\<close>.\<close>

record EdgeData =
  ed_v1_prv :: HEEdge
  ed_v1 :: HEVertex
  ed_v1_nxt :: HEEdge
  ed_v2_prv :: HEEdge
  ed_v2 :: HEVertex
  ed_v2_nxt :: HEEdge
  ed_f :: HEFace

text \<open>
  Modelled from the spec: \<open>find_edge_data\<close> (section 4.5) is declared in the header
  and defined elsewhere. On the cycle of an incident face, \<open>v1\<close> is the NEW vertex
  where the cycle passes from OUT to IN, \<open>v2\<close> the NEW vertex where it passes from
  IN to OUT, with the half-edges before and after each.
\<close>

definition find_edge_data :: "HEGraph \<Rightarrow> HEFace \<Rightarrow> EdgeData option" where
  "find_edge_data gr f =
     (let es = cycle_edges (face_vertices gr f) in
      case (find (\<lambda>(x, y). has_status gr NEW x \<and> has_status gr IN y) es,
            find (\<lambda>(x, y). has_status gr IN x \<and> has_status gr NEW y) es) of
        (Some (a, b), Some (c, e)) \<Rightarrow>
          (case (find (\<lambda>(x, y). y = a) es, find (\<lambda>(x, y). x = e) es) of
             (Some pa, Some ne) \<Rightarrow>
               Some \<lparr> ed_v1_prv = pa, ed_v1 = a, ed_v1_nxt = (a, b),
                      ed_v2_prv = (c, e), ed_v2 = e, ed_v2_nxt = ne, ed_f = f \<rparr>
           | _ \<Rightarrow> None)
      | _ \<Rightarrow> None)"

text \<open>
  Modelled from the spec: \<open>repair_face\<close>: the IN arc is detached from the cycle of the face, so that the new
  path joins \<open>v1\<close> to \<open>v2\<close>; for the face of a segment end point the path runs
  through the end point along the two separators (\<open>via\<close>).
\<close>

definition repair_face :: "HEFace \<Rightarrow> HEVertex option \<Rightarrow> HEGraph \<Rightarrow> HEGraph" where
  "repair_face f via gr =
     (case find_edge_data gr f of
        None \<Rightarrow> g_update_face f
                  (\<lambda>x. x\<lparr>boundary := filter (\<lambda>w. \<not> has_status gr IN w) (boundary x)\<rparr>) gr
      | Some ed \<Rightarrow>
          g_update_face f
            (\<lambda>x. x\<lparr>boundary :=
                     (case via of
                        None \<Rightarrow> filter (\<lambda>w. \<not> has_status gr IN w) (boundary x)
                      | Some endp \<Rightarrow>
                          insert_in_cycle endp (ed_v1 ed, ed_v2 ed)
                            (filter (\<lambda>w. \<not> has_status gr IN w) (boundary x)))\<rparr>) gr)"

text \<open>Modelled from the spec: the twin half-edges of the new paths bound the new face: they are collected and
  chained into its cycle.\<close>

fun chain_from :: "nat \<Rightarrow> HEEdge list \<Rightarrow> HEVertex \<Rightarrow> HEVertex \<Rightarrow> HEVertex list" where
  "chain_from 0 es start cur = []"
| "chain_from (Suc n) es start cur =
     (case map_of es cur of
        None \<Rightarrow> [cur]
      | Some nxt \<Rightarrow> if nxt = start then [cur] else cur # chain_from n es start nxt)"

definition chain_cycle :: "HEEdge list \<Rightarrow> HEVertex list" where
  "chain_cycle es = (case es of [] \<Rightarrow> [] | (a, b) # _ \<Rightarrow> chain_from (length es) es a a)"

definition close_face :: "HEFace \<Rightarrow> (HEFace \<times> HEEdge) list \<Rightarrow> HEGraph \<Rightarrow> HEGraph" where
  "close_face f pending gr =
     g_update_face f
       (\<lambda>x. x\<lparr>boundary := chain_cycle (map snd (filter (\<lambda>(f', e). f' = f) pending))\<rparr>) gr"

text \<open>Modelled from the spec: \<open>remove_vertex_set\<close>: the IN vertices and their incident edges are deleted.\<close>

definition remove_vertex :: "HEVertex \<Rightarrow> HEGraph \<Rightarrow> HEGraph" where
  "remove_vertex v gr =
     gr\<lparr> vertices := (if v < length (vertices gr) then (vertices gr)[v := None] else vertices gr),
         faces := map (\<lambda>fc. fc\<lparr>boundary := filter (\<lambda>w. w \<noteq> v) (boundary fc)\<rparr>) (faces gr) \<rparr>"

definition remove_vertex_set :: "VoronoiDiagram \<Rightarrow> VoronoiDiagram" where
  "remove_vertex_set d = d\<lparr> g := fold remove_vertex (v0 d) (g d) \<rparr>"

text \<open>Modelled from the spec: \<open>reset_status\<close>: every touched vertex returns to UNDECIDED and every touched
  face to NONINCIDENT; the lists of touched vertices and faces and \<open>v0\<close> are emptied.\<close>

definition reset_status :: "VoronoiDiagram \<Rightarrow> VoronoiDiagram" where
  "reset_status d =
     d\<lparr> g := fold (\<lambda>f. g_update_face f (\<lambda>x. x\<lparr>fstatus := NONINCIDENT\<rparr>)) (incident_faces d)
               (fold (\<lambda>v. g_update_vertex v (\<lambda>x. x\<lparr>status := UNDECIDED, in_queue := False\<rparr>))
                     (modified_vertices d) (g d)),
        incident_faces := [], modified_vertices := [], v0 := [] \<rparr>"

definition add_edge ::
  "EdgeData \<Rightarrow> HEVertex option \<Rightarrow> (HEVertex \<Rightarrow> HEFace) \<Rightarrow> (HEFace \<times> HEEdge) list" where
  "add_edge ed via side =
     (case via of
        None \<Rightarrow> [(side (ed_v1 ed), (ed_v2 ed, ed_v1 ed))]
      | Some endp \<Rightarrow>
          [(side (ed_v1 ed), (endp, ed_v1 ed)), (side (ed_v2 ed), (ed_v2 ed, endp))])"

definition repair_incident_face ::
  "(HEFace \<Rightarrow> HEVertex option) \<Rightarrow> (HEVertex \<Rightarrow> HEFace) \<Rightarrow> HEFace \<Rightarrow>
   HEGraph \<times> (HEFace \<times> HEEdge) list \<Rightarrow> HEGraph \<times> (HEFace \<times> HEEdge) list" where
  "repair_incident_face via side f gp =
     (case gp of (gr, pending) \<Rightarrow>
        (repair_face f (via f) gr,
         pending @ (case find_edge_data gr f of
                      None \<Rightarrow> []
                    | Some ed \<Rightarrow> add_edge ed (via f) side)))"

text \<open>
  Modelled from the spec: \<open>insert_point_site\<close> (section 4.2). A point that violates a precondition is
  reported as \<open>InvalidSite\<close>. Otherwise the site gets its vertex in the graph and its
  handle, the index of that vertex; the seed face comes from the grid, the seed
  vertex is marked and queued, the flood fill runs, the NEW vertices, the new face
  and the repaired cycles are built, the IN vertices are removed, the status is
  reset, and the grid and the counter are updated. The \<open>step\<close> argument of the
  header is for stepwise debugging and has no effect.
\<close>

definition insert_point_site ::
  "Collaborators \<Rightarrow> Point \<Rightarrow> int \<times> VoronoiDiagram \<Rightarrow>
   (insert_error + int) \<times> int \<times> VoronoiDiagram" where
  "insert_point_site env p cd =
     (case cd of (cnt, d0) \<Rightarrow>
        let d = clear_scratch d0 in
        if \<not> valid_point_site d p then (Inl InvalidSite, cnt, d)
        else
          (case new_vertex p UNDECIDED POINTSITE 0 (cnt, g d) of
             (sv, c1, g1) \<Rightarrow>
               let s = PointSite p;
                   d1 = d\<lparr> g := g1, vertex_map := vertex_map d @ [(cnt, sv)] \<rparr>;
                   f0 = (case fgrid d1 of None \<Rightarrow> None | Some gr \<Rightarrow> grid_find_closest_face gr p);
                   seed = (case f0 of None \<Rightarrow> None | Some f \<Rightarrow> find_seed_vertex env (g d1) f s);
                   d2 = (case seed of None \<Rightarrow> d1 | Some v \<Rightarrow> seed_vertex env s v d1);
                   d3 = augment_vertex_set env s d2
               in (case add_vertices env s (c1, d3) of
                     (c2, d4) \<Rightarrow>
                       (case add_face s (g d4) of
                          (newf, g5) \<Rightarrow>
                            (case fold (repair_incident_face (\<lambda>f. None) (\<lambda>v. newf))
                                       (incident_faces d4) (g5, []) of
                               (g6, pending) \<Rightarrow>
                                 let d5 = reset_status
                                            (remove_vertex_set (d4\<lparr> g := close_face newf pending g6 \<rparr>))
                                 in (Inr cnt, c2,
                                     d5\<lparr> fgrid := map_option
                                            (\<lambda>gr. gr\<lparr>grid_faces := grid_faces gr @ [(newf, p)]\<rparr>)
                                            (fgrid d5),
                                          num_psites := map_option (\<lambda>n. n + 1) (num_psites d5) \<rparr>))))))"

text \<open>
  Modelled from the spec: the preconditions of \<open>insert_line_site\<close> (section 6): both handles name inserted
  points, the segment has positive length, it crosses no existing segment and neither
  end point lies in the interior of another segment.
\<close>

definition orient :: "Point \<Rightarrow> Point \<Rightarrow> Point \<Rightarrow> real" where
  "orient a b c = (fst b - fst a) * (snd c - snd a) - (fst c - fst a) * (snd b - snd a)"

definition segments_cross :: "Point \<Rightarrow> Point \<Rightarrow> Point \<Rightarrow> Point \<Rightarrow> bool" where
  "segments_cross a b c e =
     (orient a b c * orient a b e < 0 \<and> orient c e a * orient c e b < 0)"

definition in_segment_interior :: "Point \<Rightarrow> Point \<Rightarrow> Point \<Rightarrow> bool" where
  "in_segment_interior p c e =
     (orient c e p = 0 \<and> 0 < dot (point_sub p c) (point_sub e c) \<and>
      dot (point_sub p c) (point_sub e c) < dot (point_sub e c) (point_sub e c))"

definition conflicts_with_site :: "Point \<Rightarrow> Point \<Rightarrow> Site \<Rightarrow> bool" where
  "conflicts_with_site p1 p2 s =
     (case s of
        PointSite q \<Rightarrow> False
      | LineSite c e \<Rightarrow>
          segments_cross p1 p2 c e \<or> in_segment_interior p1 c e \<or> in_segment_interior p2 c e)"

definition valid_line_site ::
  "VoronoiDiagram \<Rightarrow> int \<Rightarrow> int \<Rightarrow> (HEVertex \<times> HEVertex \<times> Point \<times> Point) option" where
  "valid_line_site d idx1 idx2 =
     (case (far_radius d, map_of (vertex_map d) idx1, map_of (vertex_map d) idx2) of
        (Some R, Some vs, Some ve) \<Rightarrow>
          (case (g_vertex (g d) vs, g_vertex (g d) ve) of
             (Some a, Some b) \<Rightarrow>
               if position a \<noteq> position b \<and>
                  \<not> list_ex (\<lambda>fc. conflicts_with_site (position a) (position b) (site fc))
                            (faces (g d))
               then Some (vs, ve, position a, position b)
               else None
           | _ \<Rightarrow> None)
      | _ \<Rightarrow> None)"

text \<open>
  Modelled from the spec: split vertices (section 4.4, step 5). \<open>find_split_edges\<close> yields the edges of the
  face on which \<open>SplitPointError\<close> changes sign between the two ends;
  \<open>add_split_vertex\<close> puts a SPLIT vertex on each of them, at the parameter the root
  finder returns for \<open>SplitPointError\<close>.
\<close>

definition signed_error :: "Collaborators \<Rightarrow> Point \<Rightarrow> Point \<Rightarrow> Point \<Rightarrow> Point \<Rightarrow> real \<Rightarrow> real" where
  "signed_error env a b pt1 pt2 t =
     (case SplitPointError (edge_curve env a b) pt1 pt2 t of Inl e \<Rightarrow> 0 | Inr x \<Rightarrow> x)"

definition find_split_edges :: "Collaborators \<Rightarrow> HEGraph \<Rightarrow> HEFace \<Rightarrow> Point \<Rightarrow> Point \<Rightarrow> HEEdge list" where
  "find_split_edges env gr f pt1 pt2 =
     filter (\<lambda>(x, y). case (g_vertex gr x, g_vertex gr y) of
                         (Some a, Some b) \<Rightarrow>
                           signed_error env (position a) (position b) pt1 pt2 0 *
                           signed_error env (position a) (position b) pt1 pt2 1 < 0
                       | _ \<Rightarrow> False)
            (cycle_edges (face_vertices gr f))"

definition split_edge ::
  "Collaborators \<Rightarrow> Point \<Rightarrow> Point \<Rightarrow> HEEdge \<Rightarrow> int \<times> VoronoiDiagram \<Rightarrow> int \<times> VoronoiDiagram" where
  "split_edge env pt1 pt2 e cd =
     (case cd of (cnt, d) \<Rightarrow>
        (case (g_vertex (g d) (fst e), g_vertex (g d) (snd e)) of
           (Some a, Some b) \<Rightarrow>
             (let t = root_finder env (signed_error env (position a) (position b) pt1 pt2)
              in case new_vertex (edge_curve env (position a) (position b) t)
                        UNDECIDED SPLIT 0 (cnt, g d) of
                   (n, c1, g1) \<Rightarrow> (c1, d\<lparr> g := add_vertex_in_edge n e g1 \<rparr>))
         | _ \<Rightarrow> cd))"

definition add_split_vertex ::
  "Collaborators \<Rightarrow> HEFace \<Rightarrow> Site \<Rightarrow> int \<times> VoronoiDiagram \<Rightarrow> int \<times> VoronoiDiagram" where
  "add_split_vertex env f s cd =
     (case s of
        PointSite q \<Rightarrow> cd
      | LineSite pt1 pt2 \<Rightarrow>
          fold (split_edge env pt1 pt2) (find_split_edges env (g (snd cd)) f pt1 pt2) cd)"

definition collinear_with :: "Point \<Rightarrow> Point \<Rightarrow> Site \<Rightarrow> bool" where
  "collinear_with p1 p2 s =
     (case s of
        PointSite q \<Rightarrow> False
      | LineSite a b \<Rightarrow> orient p1 p2 a = 0 \<and> orient p1 p2 b = 0)"

text \<open>Modelled from the spec: the new face on the side of the segment a vertex lies on.\<close>

definition side_face :: "HEGraph \<Rightarrow> Point \<Rightarrow> Point \<Rightarrow> HEFace \<Rightarrow> HEFace \<Rightarrow> HEVertex \<Rightarrow> HEFace" where
  "side_face gr p1 p2 new_f1 new_f2 v =
     (case g_vertex gr v of
        None \<Rightarrow> new_f1
      | Some x \<Rightarrow> if is_right (position x) p1 p2 then new_f2 else new_f1)"

text \<open>
  Modelled from the spec: \<open>add_separator\<close> (section 4.4, step 4): on the face of a segment end point the new
  path runs from \<open>v1\<close> along one separator to the end point and along the other to
  \<open>v2\<close>; the twins of the two separators bound the new faces on their sides.
\<close>

definition add_separator ::
  "HEFace \<Rightarrow> HEVertex \<Rightarrow> (HEVertex \<Rightarrow> HEFace) \<Rightarrow>
   HEGraph \<times> (HEFace \<times> HEEdge) list \<Rightarrow> HEGraph \<times> (HEFace \<times> HEEdge) list" where
  "add_separator f endp side gp = repair_incident_face (\<lambda>f'. Some endp) side f gp"

definition face_of_point :: "HEGraph \<Rightarrow> Point \<Rightarrow> HEFace option" where
  "face_of_point gr p = find (\<lambda>f. site (faces gr ! f) = PointSite p) [0..<length (faces gr)]"

definition repair_line_face ::
  "HEGraph \<Rightarrow> Point \<Rightarrow> Point \<Rightarrow> HEVertex \<Rightarrow> HEVertex \<Rightarrow> (HEVertex \<Rightarrow> HEFace) \<Rightarrow> HEFace \<Rightarrow>
   HEGraph \<times> (HEFace \<times> HEEdge) list \<Rightarrow> HEGraph \<times> (HEFace \<times> HEEdge) list" where
  "repair_line_face gr0 p1 p2 vs ve side f gp =
     (if face_of_point gr0 p1 = Some f then add_separator f vs side gp
      else if face_of_point gr0 p2 = Some f then add_separator f ve side gp
      else repair_incident_face (\<lambda>f'. None) side f gp)"

text \<open>
  Modelled from the spec: \<open>insert_line_site\<close> (section 4.4). The two end points become ENDPOINT vertices,
  the seed is searched on the face of the first end point, the flood fill and
  \<open>add_vertices\<close> run as for a point, split vertices are added on the incident faces
  of collinear segments, two faces are created, the separators and the other incident
  faces are re-stitched with the segment's own two half-edges, and removal, reset and
  the counter follow. The \<open>step\<close> argument has no effect.
\<close>

definition insert_line_site ::
  "Collaborators \<Rightarrow> int \<Rightarrow> int \<Rightarrow> int \<times> VoronoiDiagram \<Rightarrow> bool \<times> int \<times> VoronoiDiagram" where
  "insert_line_site env idx1 idx2 cd =
     (case cd of (cnt, d0) \<Rightarrow>
        let d = clear_scratch d0 in
        (case valid_line_site d idx1 idx2 of
           None \<Rightarrow> (False, cnt, d)
         | Some (vs, ve, p1, p2) \<Rightarrow>
             let s = LineSite p1 p2;
                 d1 = d\<lparr> g := g_update_vertex ve (\<lambda>x. x\<lparr>vtype := ENDPOINT\<rparr>)
                                (g_update_vertex vs (\<lambda>x. x\<lparr>vtype := ENDPOINT\<rparr>) (g d)) \<rparr>;
                 seed = (case face_of_point (g d1) p1 of
                           None \<Rightarrow> None
                         | Some f \<Rightarrow> find_seed_vertex env (g d1) f s);
                 d2 = (case seed of None \<Rightarrow> d1 | Some v \<Rightarrow> seed_vertex env s v d1);
                 d3 = augment_vertex_set env s d2
             in (case add_vertices env s (cnt, d3) of
                   (c1, d4) \<Rightarrow>
                     (case fold (\<lambda>f. add_split_vertex env f s)
                                (filter (\<lambda>f. case g_face (g d4) f of
                                                None \<Rightarrow> False
                                              | Some x \<Rightarrow> collinear_with p1 p2 (site x))
                                        (incident_faces d4))
                                (c1, d4) of
                        (c2, d5) \<Rightarrow>
                          (case add_face s (g d5) of
                             (new_f1, g6) \<Rightarrow>
                               (case add_face s g6 of
                                  (new_f2, g7) \<Rightarrow>
                                    (case fold (repair_line_face g7 p1 p2 vs ve
                                                  (side_face g7 p1 p2 new_f1 new_f2))
                                               (incident_faces d5)
                                               (g7, [(new_f1, (vs, ve)), (new_f2, (ve, vs))]) of
                                       (g8, pending) \<Rightarrow>
                                         let d6 = reset_status
                                                    (remove_vertex_set
                                                       (d5\<lparr> g := close_face new_f2 pending
                                                                    (close_face new_f1 pending g8) \<rparr>))
                                         in (True, c2,
                                             d6\<lparr> num_lsites :=
                                                    map_option (\<lambda>n. n + 1) (num_lsites d6) \<rparr>))))))))"

subsection \<open>Sequences of operations\<close>

text \<open>A run constructs a diagram and applies a sequence of insertions; it keeps the
  outcome of every call.\<close>

datatype operation = InsertPoint Point | InsertLine int int

datatype outcome = PointInserted int | PointFailed | LineInserted | LineFailed

definition apply_operation ::
  "Collaborators \<Rightarrow> operation \<Rightarrow> outcome list \<times> int \<times> VoronoiDiagram \<Rightarrow>
   outcome list \<times> int \<times> VoronoiDiagram" where
  "apply_operation env oper st =
     (case st of (outs, cd) \<Rightarrow>
        (case oper of
           InsertPoint p \<Rightarrow>
             (case insert_point_site env p cd of
                (Inl e, cd') \<Rightarrow> (outs @ [PointFailed], cd')
              | (Inr h, cd') \<Rightarrow> (outs @ [PointInserted h], cd'))
         | InsertLine idx1 idx2 \<Rightarrow>
             (case insert_line_site env idx1 idx2 cd of
                (ok, cd') \<Rightarrow> (outs @ [if ok then LineInserted else LineFailed], cd'))))"

definition run ::
  "Collaborators \<Rightarrow> real \<Rightarrow> nat \<Rightarrow> int \<Rightarrow> operation list \<Rightarrow> outcome list \<times> int \<times> VoronoiDiagram" where
  "run env far n_bins cnt ops =
     fold (apply_operation env) ops ([], VoronoiDiagram_ctor far n_bins cnt)"

definition run_diagram ::
  "Collaborators \<Rightarrow> real \<Rightarrow> nat \<Rightarrow> int \<Rightarrow> operation list \<Rightarrow> VoronoiDiagram" where
  "run_diagram env far n_bins cnt ops = snd (snd (run env far n_bins cnt ops))"

subsection \<open>States between insertions, and the invariant of an insertion\<close>

text \<open>
  Between insertions every vertex is UNDECIDED and unqueued, every face is NONINCIDENT
  and the scratch lists are empty (\<open>clean\<close>). During an insertion every vertex that
  is not UNDECIDED or is marked as queued is recorded in \<open>modified_vertices\<close> or
  waits in the queue, and every INCIDENT face is recorded in \<open>incident_faces\<close>
  (\<open>tracked\<close>).
\<close>

definition all_undecided :: "HEGraph \<Rightarrow> bool" where
  "all_undecided gr =
     list_all (\<lambda>x. case x of None \<Rightarrow> True | Some y \<Rightarrow> status y = UNDECIDED) (vertices gr)"

definition all_nonincident :: "HEGraph \<Rightarrow> bool" where
  "all_nonincident gr = list_all (\<lambda>fc. fstatus fc = NONINCIDENT) (faces gr)"

definition clean :: "VoronoiDiagram \<Rightarrow> bool" where
  "clean d =
     (list_all (\<lambda>x. case x of None \<Rightarrow> True | Some y \<Rightarrow> status y = UNDECIDED \<and> \<not> in_queue y)
               (vertices (g d)) \<and>
      all_nonincident (g d) \<and>
      incident_faces d = [] \<and> modified_vertices d = [] \<and> v0 d = [] \<and> vertexQueue d = [])"

definition vtracked :: "HEGraph \<Rightarrow> HEVertex set \<Rightarrow> bool" where
  "vtracked gr M =
     (\<forall>v x. g_vertex gr v = Some x \<longrightarrow> status x \<noteq> UNDECIDED \<or> in_queue x \<longrightarrow> v \<in> M)"

definition ftracked :: "HEGraph \<Rightarrow> HEFace set \<Rightarrow> bool" where
  "ftracked gr F = (\<forall>f x. g_face gr f = Some x \<longrightarrow> fstatus x = INCIDENT \<longrightarrow> f \<in> F)"

definition tracked :: "VoronoiDiagram \<Rightarrow> bool" where
  "tracked d =
     (is_heap (vertexQueue d) \<and>
      vtracked (g d) (set (modified_vertices d) \<union> fst ` set (vertexQueue d)) \<and>
      ftracked (g d) (set (incident_faces d)))"

text \<open>A change of the graph that keeps the tracking of vertices and faces.\<close>

definition gkeeps :: "HEGraph \<Rightarrow> HEGraph \<Rightarrow> bool" where
  "gkeeps gr gr' =
     ((\<forall>M. vtracked gr M \<longrightarrow> vtracked gr' M) \<and> (\<forall>F. ftracked gr F \<longrightarrow> ftracked gr' F))"

text \<open>The state after the flood fill: tracked, with the queue drained.\<close>

definition settled :: "VoronoiDiagram \<Rightarrow> bool" where
  "settled d = (tracked d \<and> vertexQueue d = [])"

text \<open>The members the steps of an insertion never touch.\<close>

definition persistent ::
  "VoronoiDiagram \<Rightarrow> FaceGrid option \<times> real option \<times> 32 word option \<times> 32 word option \<times> (int \<times> HEVertex) list" where
  "persistent d = (fgrid d, far_radius d, num_psites d, num_lsites d, vertex_map d)"

text \<open>The successful calls in the outcomes of a run, and the invariant of a run.\<close>

definition point_inserted :: "outcome \<Rightarrow> bool" where
  "point_inserted out = (case out of PointInserted h \<Rightarrow> True | _ \<Rightarrow> False)"

definition line_inserted :: "outcome \<Rightarrow> bool" where
  "line_inserted out = (case out of LineInserted \<Rightarrow> True | _ \<Rightarrow> False)"

definition run_ok :: "real \<Rightarrow> outcome list \<times> int \<times> VoronoiDiagram \<Rightarrow> bool" where
  "run_ok far st =
     (case st of (outs, cnt, d) \<Rightarrow>
        clean d \<and> far_radius d = Some far \<and>
        num_psites d = Some (3 + word_of_nat (length (filter point_inserted outs))) \<and>
        num_lsites d = Some (word_of_nat (length (filter line_inserted outs))))"

text \<open>An outcome belongs to a call of the matching operation.\<close>

definition matches_call :: "operation \<Rightarrow> outcome \<Rightarrow> bool" where
  "matches_call oper out =
     (case oper of
        InsertPoint p \<Rightarrow> out = PointFailed \<or> point_inserted out
      | InsertLine idx1 idx2 \<Rightarrow> out = LineFailed \<or> out = LineInserted)"

section \<open>Properties of the vertex queue\<close>

lemma not_abs_comparison: "(\<not> abs_comparison a b) = (\<bar>snd b\<bar> \<le> \<bar>snd a\<bar>)"
  by (auto simp: abs_comparison_def)

lemma length_push_heap_loop: "length (push_heap_loop c h t v) = length c"
proof (induction c h t v rule: push_heap_loop.induct)
  case (1 first holeIndex topIndex val)
  show ?case
    using 1 by (subst push_heap_loop.simps) (simp add: Let_def)
qed

lemma nth_push_heap_loop_above: "h < k \<Longrightarrow> push_heap_loop c h t v ! k = c ! k"
proof (induction c h t v rule: push_heap_loop.induct)
  case (1 first holeIndex topIndex val)
  show ?case
    using 1 by (subst push_heap_loop.simps) (auto simp add: Let_def)
qed

lemma mset_swap_upd:
  assumes "i < length c" "j < length c"
  shows "mset (c[i := c ! j, j := v]) = mset (c[i := v])"
proof (cases "i = j")
  case True
  then show ?thesis by simp
next
  case False
  with assms show ?thesis
    by (simp add: mset_update nth_list_update)
qed

lemma mset_push_heap_loop:
  "h < length c \<Longrightarrow> mset (push_heap_loop c h t v) = mset (c[h := v])"
proof (induction c h t v rule: push_heap_loop.induct)
  case (1 first holeIndex topIndex val)
  let ?p = "(holeIndex - 1) div 2"
  show ?case
  proof (cases "holeIndex > topIndex \<and> abs_comparison (first ! ?p) val")
    case True
    then have p: "?p < holeIndex" by auto
    have "mset (push_heap_loop first holeIndex topIndex val)
        = mset (push_heap_loop (first[holeIndex := first ! ?p]) ?p topIndex val)"
      using True by (subst push_heap_loop.simps) (simp add: Let_def)
    also have "\<dots> = mset (first[holeIndex := first ! ?p, ?p := val])"
      using 1 True p by simp
    also have "\<dots> = mset (first[holeIndex := val])"
      using mset_swap_upd[of holeIndex first ?p val] p 1(2) by simp
    finally show ?thesis .
  next
    case False
    then show ?thesis by (subst push_heap_loop.simps) (auto simp add: Let_def)
  qed
qed

lemma heap_push_heap_loop:
  assumes "heap_upto n c" "h < n" "n \<le> length c"
    and "\<forall>i. 0 < i \<and> i < n \<and> (i - 1) div 2 = h \<longrightarrow> \<not> abs_comparison v (c ! i)"
  shows "heap_upto n (push_heap_loop c h 0 v)"
  using assms
proof (induction c h "0::nat" v rule: push_heap_loop.induct)
  case (1 first holeIndex val)
  let ?p = "(holeIndex - 1) div 2"
  show ?case
  proof (cases "holeIndex > 0 \<and> abs_comparison (first ! ?p) val")
    case True
    then have p: "?p < holeIndex" by auto
    let ?c = "first[holeIndex := first ! ?p]"
    have h1: "heap_upto n ?c"
      unfolding heap_upto_def
    proof (intro allI impI)
      fix i assume i: "0 < i \<and> i < n"
      show "\<not> abs_comparison (?c ! ((i - 1) div 2)) (?c ! i)"
      proof (cases "i = holeIndex")
        case True
        with p 1(3,4) show ?thesis by (simp add: not_abs_comparison)
      next
        case False
        note neq = this
        show ?thesis
        proof (cases "(i - 1) div 2 = holeIndex")
          case True
          have a: "\<not> abs_comparison (first ! holeIndex) (first ! i)"
            using 1(2) i True unfolding heap_upto_def by metis
          have b: "\<not> abs_comparison (first ! ?p) (first ! holeIndex)"
            using 1(2) 1(3) \<open>0 < holeIndex \<and> _\<close> unfolding heap_upto_def by metis
          from a b neq True 1(3,4) show ?thesis by (simp add: not_abs_comparison)
        next
          case False
          with neq 1(2) i show ?thesis unfolding heap_upto_def by simp
        qed
      qed
    qed
    have h2: "\<forall>i. 0 < i \<and> i < n \<and> (i - 1) div 2 = ?p \<longrightarrow> \<not> abs_comparison val (?c ! i)"
    proof (intro allI impI)
      fix i assume i: "0 < i \<and> i < n \<and> (i - 1) div 2 = ?p"
      show "\<not> abs_comparison val (?c ! i)"
      proof (cases "i = holeIndex")
        case True
        with True \<open>0 < holeIndex \<and> _\<close> 1(3,4) show ?thesis
          by (simp add: not_abs_comparison abs_comparison_def)
      next
        case False
        have "\<not> abs_comparison (first ! ?p) (first ! i)"
          using 1(2) i unfolding heap_upto_def by metis
        with False \<open>0 < holeIndex \<and> _\<close> show ?thesis
          by (simp add: not_abs_comparison abs_comparison_def)
      qed
    qed
    have "heap_upto n (push_heap_loop ?c ?p 0 val)"
      using 1(1)[OF refl True h1 _ _ h2] p 1(3,4) by simp
    then show ?thesis
      using True by (subst push_heap_loop.simps) (simp add: Let_def)
  next
    case False
    have "heap_upto n (first[holeIndex := val])"
      unfolding heap_upto_def
    proof (intro allI impI)
      fix i assume i: "0 < i \<and> i < n"
      show "\<not> abs_comparison (first[holeIndex := val] ! ((i - 1) div 2)) (first[holeIndex := val] ! i)"
      proof (cases "i = holeIndex")
        case True
        then have "(i - 1) div 2 \<noteq> holeIndex" using i by auto
        with True False i 1(3,4) show ?thesis by simp
      next
        case False
        note neq = this
        show ?thesis
        proof (cases "(i - 1) div 2 = holeIndex")
          case True
          with 1(5) i neq 1(3,4) show ?thesis by simp
        next
          case False
          with neq 1(2) i show ?thesis unfolding heap_upto_def by simp
        qed
      qed
    qed
    then show ?thesis
      using False by (subst push_heap_loop.simps) (auto simp add: Let_def)
  qed
qed

lemma no_child: 
  fixes s len i :: nat
  assumes "\<not> s < (len - 1) div 2" "\<not> (len mod 2 = 0 \<and> s = (len - 2) div 2)" "0 < i" "i < len" "(i - 1) div 2 = s" 
  shows False
  using assms by (cases "even len") (auto elim!: evenE oddE)

lemma last_child:
  fixes s len :: nat
  assumes "len mod 2 = 0" "s = (len - 2) div 2" "0 < len"
  shows "2 * (s + 1) - 1 = len - 1" "2 * (s + 1) - 1 < len" "s < 2 * (s + 1) - 1" "(2 * (s + 1) - 1 - 1) div 2 = s" 
proof -
  from assms(1,3) obtain b where b: "len = 2 * Suc b"
    by (metis Suc_pred mod_0_imp_dvd dvdE nat_0_less_mult_iff)
  then have s: "s = b" using assms(2) by simp
  show "2 * (s + 1) - 1 = len - 1" "2 * (s + 1) - 1 < len" "s < 2 * (s + 1) - 1" "(2 * (s + 1) - 1 - 1) div 2 = s"
    using b s by simp_all
qed

lemma leaf_last:
  fixes len i :: nat
  assumes "0 < i" "i < len" "(i - 1) div 2 = len - 1"
  shows False
  using assms by arith

lemma only_child:
  fixes s len i :: nat
  assumes "0 < i" "i < len" "(i - 1) div 2 = s" "2 * (s + 1) - 1 = len - 1"
  shows "i = len - 1"
  using assms by (cases i) auto

lemma adjust_heap_loop_props:
  assumes "heap_upto len c" "h < len" "len \<le> length c"
    and "adjust_heap_loop c h h len = (c', h', s')"
  shows "heap_upto len c' \<and> h' = s' \<and> h' < len \<and> \<not> s' < (len - 1) div 2 \<and>
         length c' = length c \<and> (\<forall>k\<ge>len. c' ! k = c ! k) \<and>
         mset (c'[h' := v]) = mset (c[h := v])"
  using assms
proof (induction "len - h" arbitrary: c h rule: less_induct)
  case less
  note 1 = less
  define first where "first = c"
  define holeIndex where "holeIndex = h"
  note 1 = less[folded first_def holeIndex_def]
  show ?case
  proof (cases "holeIndex < (len - 1) div 2")
    case True
    define sc where "sc = 2 * (holeIndex + 1)"
    define sc' where "sc' = (if abs_comparison (first ! sc) (first ! (sc - 1)) then sc - 1 else sc)"
    let ?c = "first[holeIndex := first ! sc']"
    have sc_lt: "sc < len" using True unfolding sc_def by presburger
    have sc'_cases: "sc' = sc \<or> sc' = sc - 1" unfolding sc'_def by simp
    have sc'_lt: "sc' < len" using sc'_cases sc_lt by auto
    have sc'_gt: "holeIndex < sc'" using sc'_cases unfolding sc_def by auto
    have par: "(sc - 1) div 2 = holeIndex" "(sc - 1 - 1) div 2 = holeIndex"
      unfolding sc_def by auto
    have par': "(sc' - 1) div 2 = holeIndex" using sc'_cases par by auto
    have big: "\<not> abs_comparison (first ! sc') (first ! sc) \<and> \<not> abs_comparison (first ! sc') (first ! (sc - 1))"
      unfolding sc'_def by (auto simp: abs_comparison_def)
    have children: "\<And>i. 0 < i \<Longrightarrow> (i - 1) div 2 = holeIndex \<Longrightarrow> i = sc \<or> i = sc - 1"
      unfolding sc_def by auto
    have rec: "adjust_heap_loop first holeIndex holeIndex len = adjust_heap_loop ?c sc' sc' len"
      using True by (subst adjust_heap_loop.simps) (simp add: Let_def sc_def sc'_def)
    have h1: "heap_upto len ?c"
      unfolding heap_upto_def
    proof (intro allI impI)
      fix i assume i: "0 < i \<and> i < len"
      show "\<not> abs_comparison (?c ! ((i - 1) div 2)) (?c ! i)"
      proof (cases "i = holeIndex")
        case True
        have a: "\<not> abs_comparison (first ! ((holeIndex - 1) div 2)) (first ! holeIndex)"
          using 1(2) i True unfolding heap_upto_def by metis
        have b: "\<not> abs_comparison (first ! holeIndex) (first ! sc')"
          using 1(2) sc'_lt sc'_gt par' unfolding heap_upto_def
          by (metis gr_implies_not_zero not_gr_zero)
        have "(i - 1) div 2 \<noteq> holeIndex" using True i by auto
        with a b True 1(3,4) show ?thesis by (simp add: not_abs_comparison)
      next
        case False
        note neq = this
        show ?thesis
        proof (cases "(i - 1) div 2 = holeIndex")
          case True
          with children i have "i = sc \<or> i = sc - 1" by blast
          with big neq True 1(3,4) show ?thesis by auto
        next
          case False
          with neq 1(2) i show ?thesis unfolding heap_upto_def by simp
        qed
      qed
    qed
    have res: "adjust_heap_loop ?c sc' sc' len = (c', h', s')"
      using 1(5) rec by simp
    have IH: "heap_upto len c' \<and> h' = s' \<and> h' < len \<and> \<not> s' < (len - 1) div 2 \<and>
         length c' = length ?c \<and> (\<forall>k\<ge>len. c' ! k = ?c ! k) \<and>
         mset (c'[h' := v]) = mset (?c[sc' := v])"
    proof -
      have dec: "len - sc' < len - h" using sc'_gt sc'_lt unfolding holeIndex_def by arith
      have len: "len \<le> length ?c" using 1(4) by simp
      from less(1)[OF dec h1 sc'_lt len res] show ?thesis .
    qed
    have "mset (?c[sc' := v]) = mset (first[holeIndex := v])"
      using mset_swap_upd[of holeIndex first sc' v] 1(3,4) sc'_lt by simp
    moreover have "\<forall>k\<ge>len. ?c ! k = first ! k" using 1(3) by simp
    ultimately show ?thesis using IH by (auto simp add: first_def holeIndex_def)
  next
    case False
    then have "adjust_heap_loop first holeIndex holeIndex len = (first, holeIndex, holeIndex)"
      by (subst adjust_heap_loop.simps) simp
    with 1(5) have "c' = first" "h' = holeIndex" "s' = holeIndex" by simp_all
    with False 1(2,3) show ?thesis by (simp add: first_def holeIndex_def)
  qed
qed

lemma adjust_heap_props:
  assumes "heap_upto len c" "0 < len" "len \<le> length c"
  shows "heap_upto len (adjust_heap c 0 len v) \<and>
         length (adjust_heap c 0 len v) = length c \<and>
         (\<forall>k\<ge>len. adjust_heap c 0 len v ! k = c ! k) \<and>
         mset (adjust_heap c 0 len v) = mset (c[0 := v])"
proof -
  obtain c1 h1 s1 where loop: "adjust_heap_loop c 0 0 len = (c1, h1, s1)"
    by (cases "adjust_heap_loop c 0 0 len") auto
  from adjust_heap_loop_props[OF assms(1) assms(2) assms(3) loop, of v]
  have p: "heap_upto len c1" "h1 = s1" "h1 < len" "\<not> s1 < (len - 1) div 2"
    "length c1 = length c" "\<forall>k\<ge>len. c1 ! k = c ! k" "mset (c1[h1 := v]) = mset (c[0 := v])"
    by auto
  show ?thesis
  proof (cases "len mod 2 = 0 \<and> s1 = (len - 2) div 2")
    case True
    let ?k = "2 * (s1 + 1) - 1"
    let ?c2 = "c1[h1 := c1 ! ?k]"
    have k: "?k = len - 1" "?k < len" "h1 < ?k" "(?k - 1) div 2 = h1"
      using last_child[of len s1] True p(2) assms(2) by simp_all
    have eq: "adjust_heap c 0 len v = push_heap_loop ?c2 ?k 0 v"
      using True loop by (simp add: adjust_heap_def Let_def)
    have h2: "heap_upto len ?c2"
      unfolding heap_upto_def
    proof (intro allI impI)
      fix i assume i: "0 < i \<and> i < len"
      have nochild: "(i - 1) div 2 = h1 \<Longrightarrow> i = ?k"
        using only_child[of i len h1] i k(1) p(2) by simp
      show "\<not> abs_comparison (?c2 ! ((i - 1) div 2)) (?c2 ! i)"
      proof (cases "i = h1")
        case True
        have a: "\<not> abs_comparison (c1 ! ((h1 - 1) div 2)) (c1 ! h1)"
          using p(1) i True unfolding heap_upto_def by metis
        have b: "\<not> abs_comparison (c1 ! h1) (c1 ! ?k)"
          using p(1) k unfolding heap_upto_def
          by (metis gr_implies_not_zero not_gr_zero)
        have "(i - 1) div 2 \<noteq> h1" using True i by auto
        with a b True p(3,5) assms(3) show ?thesis by (simp add: not_abs_comparison)
      next
        case False
        note neq = this
        show ?thesis
        proof (cases "(i - 1) div 2 = h1")
          case True
          with nochild have "i = ?k" by simp
          with True neq p(3,5) assms(3) show ?thesis by (simp add: not_abs_comparison)
        next
          case False
          with neq p(1) i show ?thesis unfolding heap_upto_def by simp
        qed
      qed
    qed
    have leaf: "\<forall>i. 0 < i \<and> i < len \<and> (i - 1) div 2 = ?k \<longrightarrow> \<not> abs_comparison v (?c2 ! i)"
      using leaf_last[of _ len] k(1) by auto
    have len2: "len \<le> length ?c2" using p(5) assms(3) by simp
    have "heap_upto len (push_heap_loop ?c2 ?k 0 v)"
      by (rule heap_push_heap_loop[OF h2 k(2) len2 leaf])
    moreover have "length (push_heap_loop ?c2 ?k 0 v) = length c"
      using p(5) by (simp add: length_push_heap_loop)
    moreover have "\<forall>j\<ge>len. push_heap_loop ?c2 ?k 0 v ! j = c ! j"
      using p(6) k(2) p(3) by (simp add: nth_push_heap_loop_above)
    moreover have "mset (push_heap_loop ?c2 ?k 0 v) = mset (c[0 := v])"
    proof -
      have "mset (push_heap_loop ?c2 ?k 0 v) = mset (?c2[?k := v])"
        using k(2) p(5) assms(3) by (simp add: mset_push_heap_loop)
      also have "\<dots> = mset (c1[h1 := v])"
        using mset_swap_upd[of h1 c1 ?k v] k(2) p(3,5) assms(3) by simp
      finally show ?thesis using p(7) by simp
    qed
    ultimately show ?thesis using eq by simp
  next
    case False
    have eq: "adjust_heap c 0 len v = push_heap_loop c1 h1 0 v"
      using False loop by (auto simp add: adjust_heap_def Let_def)
    have leaf: "\<forall>i. 0 < i \<and> i < len \<and> (i - 1) div 2 = h1 \<longrightarrow> \<not> abs_comparison v (c1 ! i)"
      using no_child[of s1 len] False p(2,4) by blast
    have len1: "len \<le> length c1" using p(5) assms(3) by simp
    have "heap_upto len (push_heap_loop c1 h1 0 v)"
      by (rule heap_push_heap_loop[OF p(1) p(3) len1 leaf])
    moreover have "length (push_heap_loop c1 h1 0 v) = length c"
      using p(5) by (simp add: length_push_heap_loop)
    moreover have "\<forall>j\<ge>len. push_heap_loop c1 h1 0 v ! j = c ! j"
      using p(6) p(3) by (simp add: nth_push_heap_loop_above)
    moreover have "mset (push_heap_loop c1 h1 0 v) = mset (c[0 := v])"
      using p(3,5,7) assms(3) by (simp add: mset_push_heap_loop)
    ultimately show ?thesis using eq by simp
  qed
qed

lemma push_heap_loop_hole_content:
  "h < length c \<Longrightarrow> push_heap_loop (c[h := z]) h t v = push_heap_loop c h t v"
  by (subst (1 2) push_heap_loop.simps) (auto simp: Let_def)

lemma heap_upto_mono: "heap_upto n c \<Longrightarrow> m \<le> n \<Longrightarrow> heap_upto m c"
  by (simp add: heap_upto_def)

lemma heap_upto_cong: "\<forall>i<n. c ! i = d ! i \<Longrightarrow> heap_upto n c = heap_upto n d"
proof -
  assume a: "\<forall>i<n. c ! i = d ! i"
  have "\<And>i. 0 < i \<and> i < n \<Longrightarrow> (i - 1) div 2 < n" by auto
  with a show ?thesis unfolding heap_upto_def by auto
qed

lemma push_props:
  assumes "is_heap c"
  shows "is_heap (push x c) \<and> mset (push x c) = add_mset x (mset c)"
proof (cases "c = []")
  case True
  then show ?thesis
    by (simp add: push_def push_heap_def is_heap_def heap_upto_def push_heap_loop.simps)
next
  case False
  let ?h = "length c"
  let ?p = "(?h - 1) div 2"
  let ?c0 = "c @ [c ! ?p]"
  have hpos: "0 < ?h" using False by simp
  then have p: "?p < ?h"
    by (intro le_less_trans[OF div_le_dividend]) simp
  have eq: "push x c = push_heap_loop (c @ [x]) ?h 0 x"
    by (simp add: push_def push_heap_def)
  have "push_heap_loop (?c0[?h := x]) ?h 0 x = push_heap_loop ?c0 ?h 0 x"
    by (rule push_heap_loop_hole_content) simp
  then have eq2: "push x c = push_heap_loop ?c0 ?h 0 x"
    using eq by simp
  have h0: "heap_upto (Suc ?h) ?c0"
    unfolding heap_upto_def
  proof (intro allI impI)
    fix i assume i: "0 < i \<and> i < Suc ?h"
    show "\<not> abs_comparison (?c0 ! ((i - 1) div 2)) (?c0 ! i)"
    proof (cases "i = ?h")
      case True
      with p show ?thesis by (simp add: nth_append not_abs_comparison)
    next
      case False
      with i have il: "i < ?h" by simp
      then have "(i - 1) div 2 < ?h" by auto
      with il i assms show ?thesis
        by (simp add: nth_append is_heap_def heap_upto_def)
    qed
  qed
  have leaf: "\<forall>i. 0 < i \<and> i < Suc ?h \<and> (i - 1) div 2 = ?h \<longrightarrow> \<not> abs_comparison x (?c0 ! i)"
    by auto
  have "heap_upto (Suc ?h) (push_heap_loop ?c0 ?h 0 x)"
    by (rule heap_push_heap_loop[OF h0 _ _ leaf]) simp_all
  then have "is_heap (push x c)"
    using eq2 by (simp add: is_heap_def length_push_heap_loop)
  moreover have "mset (push x c) = add_mset x (mset c)"
    using eq by (simp add: mset_push_heap_loop)
  ultimately show ?thesis by simp
qed

lemma pop_props:
  assumes "is_heap c" "pop c = Some c'"
  shows "is_heap c' \<and> mset c' = mset c - {#c ! 0#} \<and> c \<noteq> []"
proof -
  from assms(2) have ne: "c \<noteq> []" and c': "c' = butlast (pop_heap c)"
    by (auto simp: pop_def split: if_splits)
  show ?thesis
  proof (cases "length c > 1")
    case False
    with ne have "length c = 1" by (cases c) auto
    then obtain a where "c = [a]" by (cases c) auto
    then show ?thesis using c' by (simp add: pop_heap_def is_heap_def heap_upto_def)
  next
    case True
    define l where "l = length c - 1"
    define c1 where "c1 = c[l := c ! 0]"
    define r where "r = adjust_heap c1 0 l (c ! l)"
    have l: "0 < l" "l < length c" "length c = Suc l" using True by (simp_all add: l_def)
    have r: "pop_heap c = r" using True by (simp add: pop_heap_def Let_def r_def c1_def l_def)
    have "heap_upto l c" using assms(1) l(3) by (simp add: is_heap_def heap_upto_mono)
    then have h1: "heap_upto l c1"
      using heap_upto_cong[of l c1 c] by (simp add: c1_def)
    have len1: "l \<le> length c1" using l by (simp add: c1_def)
    from adjust_heap_props[OF h1 l(1) len1, of "c ! l"]
    have rp: "heap_upto l r" "length r = length c" "r ! l = c ! 0" "mset r = mset (c1[0 := c ! l])"
      using l by (simp_all add: r_def c1_def)
    have bl: "butlast r = take l r" using rp(2) l(3) by (simp add: butlast_conv_take)
    have "heap_upto l (take l r)"
      using heap_upto_cong[of l "take l r" r] rp(1) by simp
    then have "is_heap c'" using c' r bl rp(2) l(3) by (simp add: is_heap_def)
    moreover have "mset c' = mset c - {#c ! 0#}"
    proof -
      have "mset r = mset c"
        using rp(4) mset_swap[of 0 c l] l by (simp add: c1_def)
      moreover have "r \<noteq> []" using rp(2) l by auto
      note rne = this
      moreover have "last r = c ! 0" using rp(2,3) l(3) rne by (simp add: last_conv_nth)
      moreover have "mset (butlast r @ [last r]) = mset r" using rne by simp
      then have "mset (butlast r) = mset r - {#last r#}"
        by (simp del: append_butlast_last_id) (metis add_mset_remove_trivial)
      ultimately show ?thesis using c' r by simp
    qed
    ultimately show ?thesis using ne by simp
  qed
qed






section \<open>Properties of \<open>SplitPointError\<close>\<close>

lemma dot_self_zero: "(dot (point_sub p2 p1) (point_sub p2 p1) = 0) = (p1 = p2)"
  by (cases p1; cases p2) (auto simp: dot_def point_sub_def)

lemma dot_self_pos: "p1 \<noteq> p2 \<Longrightarrow> 0 < dot (point_sub p2 p1) (point_sub p2 p1)"
proof -
  assume "p1 \<noteq> p2"
  then have "dot (point_sub p2 p1) (point_sub p2 p1) \<noteq> 0" by (simp add: dot_self_zero)
  moreover have "0 \<le> dot (point_sub p2 p1) (point_sub p2 p1)" by (simp add: dot_def)
  ultimately show ?thesis by simp
qed









section \<open>Properties of the accessors\<close>

lemma sint_sub_no_overflow:
  fixes a b :: "32 word"
  assumes "- (2 ^ 31) \<le> sint a - sint b" "sint a - sint b < 2 ^ 31"
  shows "sint (a - b) = sint a - sint b"
  using assms by (simp add: sint_word_diff signed_take_bit_int_eq_self)

lemma sint_word_of_nat_small:
  assumes "int k < 2 ^ 31"
  shows "sint (word_of_nat k :: 32 word) = int k"
  using assms by (simp add: signed_of_nat signed_take_bit_int_eq_self)

text \<open>
  C9. On a diagram whose counter \<open>num_psites\<close> holds \<open>n\<close>, \<open>num_vertices()\<close> is the
  number of graph vertices minus \<open>num_point_sites()\<close>, that is minus \<open>n - 3\<close>, in
  32-bit arithmetic; where nothing overflows, this is the difference of the integers.
\<close>

theorem num_vertices_excludes_point_sites:
  assumes "num_psites d = Some n"
  shows "num_point_sites d = Some (n - 3) \<and>
         num_vertices d = Some (word_of_nat (g_num_vertices (g d)) - (n - 3)) \<and>
         (- (2 ^ 31) \<le> sint n - 3 \<and> int (g_num_vertices (g d)) < 2 ^ 31 \<and>
          - (2 ^ 31) \<le> int (g_num_vertices (g d)) - (sint n - 3) \<and>
          int (g_num_vertices (g d)) - (sint n - 3) < 2 ^ 31 \<longrightarrow>
          map_option sint (num_vertices d) = Some (int (g_num_vertices (g d)) - (sint n - 3)))"
proof -
  have a: "num_point_sites d = Some (n - 3)" using assms by (simp add: num_point_sites_def)
  have b: "num_vertices d = Some (word_of_nat (g_num_vertices (g d)) - (n - 3))"
    using a by (simp add: num_vertices_def)
  have c: "map_option sint (num_vertices d) = Some (int (g_num_vertices (g d)) - (sint n - 3))"
    if h: "- (2 ^ 31) \<le> sint n - 3" "int (g_num_vertices (g d)) < 2 ^ 31"
      "- (2 ^ 31) \<le> int (g_num_vertices (g d)) - (sint n - 3)"
      "int (g_num_vertices (g d)) - (sint n - 3) < 2 ^ 31"
  proof -
    have "sint (3 :: 32 word) = 3" by simp
    moreover have "sint n < 2 ^ 31" using sint_lt[of n] by simp
    ultimately have p: "sint (n - 3) = sint n - 3"
      using h(1) sint_sub_no_overflow[of n 3] by simp
    have v: "sint (word_of_nat (g_num_vertices (g d)) :: 32 word) = int (g_num_vertices (g d))"
      by (rule sint_word_of_nat_small[OF h(2)])
    have "sint (word_of_nat (g_num_vertices (g d)) - (n - 3) :: 32 word)
        = int (g_num_vertices (g d)) - (sint n - 3)"
      using sint_sub_no_overflow[of "word_of_nat (g_num_vertices (g d))" "n - 3"] p v h(3,4)
      by simp
    then show ?thesis using b by simp
  qed
  from a b c show ?thesis by blast
qed

theorem num_vertices_excludes_point_sites_witness:
  "num_psites (VoronoiDiagram_default\<lparr>num_psites := Some 5\<rparr>) = Some 5 \<and>
   num_point_sites (VoronoiDiagram_default\<lparr>num_psites := Some 5\<rparr>) = Some 2 \<and>
   num_vertices (VoronoiDiagram_default\<lparr>num_psites := Some 5\<rparr>) = Some (- 2) \<and>
   map_option sint (num_vertices (VoronoiDiagram_default\<lparr>num_psites := Some 5\<rparr>)) = Some (- 2)"
proof -
  let ?d = "VoronoiDiagram_default\<lparr>num_psites := Some 5\<rparr>"
  have h: "num_psites ?d = Some 5" by simp
  have v: "g_num_vertices (g ?d) = 0"
    by (simp add: VoronoiDiagram_default_def g_num_vertices_def)
  from num_vertices_excludes_point_sites[OF h] h v show ?thesis by simp
qed

text \<open>
  C10. The default constructor leaves the members \<open>far_radius\<close>, \<open>num_psites\<close>
  and \<open>num_lsites\<close> indeterminate, so \<open>get_far_radius()\<close>, \<open>num_point_sites()\<close>,
  \<open>num_line_sites()\<close> and \<open>num_vertices()\<close> have no value to return on a
  default-constructed diagram. On any diagram an accessor returns a value exactly when
  the member it reads has been assigned: only a constructor that assigns the members
  establishes what the accessors rely on, and of the two constructors of the class the
  default one does not.
\<close>

theorem default_constructor_leaves_members_indeterminate:
  "far_radius VoronoiDiagram_default = None \<and>
   num_psites VoronoiDiagram_default = None \<and>
   num_lsites VoronoiDiagram_default = None \<and>
   get_far_radius VoronoiDiagram_default = None \<and>
   num_point_sites VoronoiDiagram_default = None \<and>
   num_line_sites VoronoiDiagram_default = None \<and>
   num_vertices VoronoiDiagram_default = None \<and>
   (get_far_radius d = None) = (far_radius d = None) \<and>
   (num_point_sites d = None) = (num_psites d = None) \<and>
   (num_line_sites d = None) = (num_lsites d = None) \<and>
   (num_vertices d = None) = (num_psites d = None)"
  by (simp add: get_far_radius_def num_point_sites_def num_line_sites_def num_vertices_def
      VoronoiDiagram_default_def)

section \<open>Properties of the flood fill\<close>













lemma length_push: "length (push x c) = Suc (length c)"
  by (simp add: push_def push_heap_def length_push_heap_loop)

lemma length_adjust_heap_loop:
  "adjust_heap_loop c h s len = (c', h', s') \<Longrightarrow> length c' = length c"
proof (induction c h s len arbitrary: c' h' s' rule: adjust_heap_loop.induct)
  case (1 first holeIndex secondChild len)
  show ?case
  proof (cases "secondChild < (len - 1) div 2")
    case True
    with 1 show ?thesis
      by (subst (asm) (2) adjust_heap_loop.simps) (auto simp: Let_def split: if_splits)
  next
    case False
    with 1(2) show ?thesis
      by (subst (asm) adjust_heap_loop.simps) simp
  qed
qed

lemma length_adjust_heap: "length (adjust_heap c h len v) = length c"
proof -
  obtain c1 h1 s1 where l: "adjust_heap_loop c h h len = (c1, h1, s1)"
    by (cases "adjust_heap_loop c h h len") auto
  from length_adjust_heap_loop[OF l] l show ?thesis
    by (simp add: adjust_heap_def Let_def length_push_heap_loop)
qed

lemma length_pop_heap: "length (pop_heap c) = length c"
  by (simp add: pop_heap_def Let_def length_adjust_heap)

lemma length_pop: "pop c = Some c' \<Longrightarrow> Suc (length c') = length c"
proof -
  assume "pop c = Some c'"
  then have "c \<noteq> []" "c' = butlast (pop_heap c)"
    by (auto simp: pop_def split: if_splits)
  then show ?thesis by (simp add: length_pop_heap)
qed


lemma length_filter_update_drop:
  assumes "i < length xs" "P (xs ! i)" "\<not> P y"
  shows "Suc (length (filter P (xs[i := y]))) = length (filter P xs)"
proof -
  have a: "xs[i := y] = take i xs @ y # drop (Suc i) xs"
    using assms(1) by (rule upd_conv_take_nth_drop)
  have b: "xs = take i xs @ xs ! i # drop (Suc i) xs"
    using assms(1) by (rule id_take_nth_drop)
  have "length (filter P xs) = length (filter P (take i xs @ xs ! i # drop (Suc i) xs))"
    using b by simp
  then show ?thesis unfolding a using assms(2,3) by simp
qed

lemma length_filter_update_same:
  assumes "i < length xs" "P (xs ! i) = P y"
  shows "length (filter P (xs[i := y])) = length (filter P xs)"
proof -
  have a: "xs[i := y] = take i xs @ y # drop (Suc i) xs"
    using assms(1) by (rule upd_conv_take_nth_drop)
  have b: "xs = take i xs @ xs ! i # drop (Suc i) xs"
    using assms(1) by (rule id_take_nth_drop)
  have "length (filter P xs) = length (filter P (take i xs @ xs ! i # drop (Suc i) xs))"
    using b by simp
  then show ?thesis unfolding a using assms(2) by simp
qed

lemma unqueued_update_same:
  assumes "\<And>x. in_queue (upd x) = in_queue x"
  shows "unqueued (g_update_vertex v upd gr) = unqueued gr"
proof (cases "g_vertex gr v")
  case None
  then show ?thesis by (simp add: g_update_vertex_def)
next
  case (Some x)
  then have v: "v < length (vertices gr)" "vertices gr ! v = Some x"
    by (auto simp: g_vertex_def split: if_splits)
  show ?thesis
    using Some v assms
    by (simp add: g_update_vertex_def unqueued_def length_filter_update_same)
qed

lemma unqueued_update_face: "unqueued (g_update_face f upd gr) = unqueued gr"
  by (simp add: g_update_face_def unqueued_def split: option.splits)

lemma unqueued_queue:
  assumes "g_vertex gr u = Some x" "\<not> in_queue x"
  shows "Suc (unqueued (g_update_vertex u (\<lambda>y. y\<lparr>in_queue := True\<rparr>) gr)) = unqueued gr"
proof -
  from assms(1) have v: "u < length (vertices gr)" "vertices gr ! u = Some x"
    by (auto simp: g_vertex_def split: if_splits)
  show ?thesis
    using assms v
    by (simp add: g_update_vertex_def unqueued_def length_filter_update_drop)
qed

lemma fill_measure_queue_vertex: "fill_measure (queue_vertex env s u d) \<le> fill_measure d"
proof (cases "g_vertex (g d) u")
  case None
  then show ?thesis by (simp add: queue_vertex_def)
next
  case (Some x)
  show ?thesis
  proof (cases "status x = UNDECIDED \<and> \<not> in_queue x")
    case True
    with Some unqueued_queue[OF Some] show ?thesis
      by (simp add: queue_vertex_def fill_measure_def length_push)
  next
    case False
    with Some show ?thesis by (auto simp add: queue_vertex_def)
  qed
qed

lemma fill_measure_fold_queue:
  "fill_measure (fold (queue_vertex env s) us d) \<le> fill_measure d"
proof (induction us arbitrary: d)
  case Nil
  show ?case by simp
next
  case (Cons u us)
  have "fill_measure (fold (queue_vertex env s) us (queue_vertex env s u d))
      \<le> fill_measure (queue_vertex env s u d)" by (rule Cons.IH)
  also have "\<dots> \<le> fill_measure d" by (rule fill_measure_queue_vertex)
  finally show ?case by simp
qed

lemma fill_measure_set_status: "fill_measure (set_status v st d) = fill_measure d"
  by (simp add: set_status_def fill_measure_def unqueued_update_same)

lemma fill_measure_mark_face: "fill_measure (mark_face f d) = fill_measure d"
  by (simp add: mark_face_def fill_measure_def unqueued_update_face)

lemma fill_measure_fold_mark_face: "fill_measure (fold mark_face fs d) = fill_measure d"
  by (induction fs arbitrary: d) (simp_all add: fill_measure_mark_face)

lemma fill_measure_mark_vertex: "fill_measure (mark_vertex v d) = fill_measure d"
proof -
  have "fill_measure ((set_status v IN d)\<lparr>v0 := v0 d @ [v]\<rparr>) = fill_measure d"
    using fill_measure_set_status[of v IN d] by (simp add: fill_measure_def)
  then show ?thesis
    by (simp add: mark_vertex_def mark_adjacent_faces_def fill_measure_fold_mark_face)
qed

lemma fill_measure_decide_vertex: "fill_measure (decide_vertex v d) = fill_measure d"
  by (simp add: decide_vertex_def fill_measure_mark_vertex fill_measure_set_status)

lemma fill_measure_augment_step:
  assumes "augment_step env s d = Some d'"
  shows "fill_measure d' < fill_measure d"
proof -
  from assms obtain v h q where t: "top (vertexQueue d) = Some (v, h)"
    and q: "pop (vertexQueue d) = Some q"
    and d': "d' = fold (queue_vertex env s)
        (adjacent_vertices (g (decide_vertex v (d\<lparr>vertexQueue := q\<rparr>))) v)
        (decide_vertex v (d\<lparr>vertexQueue := q\<rparr>))"
    by (auto simp: augment_step_def Let_def split: option.splits)
  have "fill_measure d' \<le> fill_measure (decide_vertex v (d\<lparr>vertexQueue := q\<rparr>))"
    unfolding d' by (rule fill_measure_fold_queue)
  also have "\<dots> = fill_measure (d\<lparr>vertexQueue := q\<rparr>)"
    by (rule fill_measure_decide_vertex)
  also have "\<dots> < fill_measure d"
    using length_pop[OF q] by (simp add: fill_measure_def)
  finally show ?thesis .
qed

termination augment_vertex_set
  by (relation "measure (\<lambda>(env, s, d). fill_measure d)")
     (auto simp: fill_measure_augment_step)

declare augment_vertex_set.simps [simp del]






lemma g_vertex_update:
  "g_vertex (g_update_vertex v upd gr) w =
     (if w = v then map_option upd (g_vertex gr v) else g_vertex gr w)"
  by (auto simp: g_update_vertex_def g_vertex_def split: option.splits)

lemma faces_update_vertex: "faces (g_update_vertex v upd gr) = faces gr"
  by (simp add: g_update_vertex_def split: option.splits)

lemma g_vertex_update_face: "g_vertex (g_update_face f upd gr) w = g_vertex gr w"
  by (simp add: g_update_face_def g_vertex_def split: option.splits)








lemma same_marks_face_arcs_ok:
  assumes "same_marks gr gr'"
  shows "face_arcs_ok gr' = face_arcs_ok gr"
proof -
  have st: "has_status gr' IN = has_status gr IN"
    using assms by (auto simp: same_marks_def)
  have "face_arcs_ok gr' =
      list_all (\<lambda>b. list_all (\<lambda>w. \<not> has_status gr IN w) b \<or> contiguous_arc (has_status gr IN) b)
        (map boundary (faces gr'))"
    by (simp add: face_arcs_ok_def st list_all_iff)
  also have "\<dots> = face_arcs_ok gr"
    using assms by (simp add: same_marks_def face_arcs_ok_def list_all_iff)
  finally show ?thesis .
qed









lemma face_arcs_ok_reject:
  assumes ok: "face_arcs_ok gr"
    and st: "\<And>w. has_status gr' IN w = (w \<noteq> v \<and> has_status gr IN w)"
    and bd: "map boundary (faces gr') = map boundary (faces gr)"
    and nin: "\<not> has_status gr IN v"
  shows "face_arcs_ok gr'"
proof -
  have "has_status gr' IN = has_status gr IN" using st nin by auto
  have "face_arcs_ok gr' =
      list_all (\<lambda>b. list_all (\<lambda>w. \<not> has_status gr IN w) b \<or> contiguous_arc (has_status gr IN) b)
        (map boundary (faces gr'))"
    using \<open>has_status gr' IN = has_status gr IN\<close> by (simp add: face_arcs_ok_def list_all_iff)
  also have "\<dots> = face_arcs_ok gr" by (simp add: bd face_arcs_ok_def list_all_iff)
  finally show ?thesis using ok by simp
qed






section \<open>Properties of insertions and runs\<close>

lemma vtracked_mono: "vtracked gr M \<Longrightarrow> M \<subseteq> M' \<Longrightarrow> vtracked gr M'"
  by (auto simp: vtracked_def)

lemma ftracked_mono: "ftracked gr F \<Longrightarrow> F \<subseteq> F' \<Longrightarrow> ftracked gr F'"
  by (auto simp: ftracked_def)

lemma vtracked_update_in:
  assumes "vtracked gr M" "v \<in> M"
  shows "vtracked (g_update_vertex v upd gr) M"
  using assms by (auto simp: vtracked_def g_vertex_update split: if_splits)

lemma vtracked_update_same:
  assumes "vtracked gr M" "\<And>x. status (upd x) = status x" "\<And>x. in_queue (upd x) = in_queue x"
  shows "vtracked (g_update_vertex v upd gr) M"
  using assms by (auto simp: vtracked_def g_vertex_update split: if_splits)

lemma vtracked_update_face:
  "vtracked (g_update_face f upd gr) M = vtracked gr M"
  by (simp add: vtracked_def g_vertex_update_face)

lemma g_face_update_vertex: "g_face (g_update_vertex v upd gr) f = g_face gr f"
  by (simp add: g_face_def faces_update_vertex)

lemma ftracked_update_vertex:
  "ftracked (g_update_vertex v upd gr) F = ftracked gr F"
  by (simp add: ftracked_def g_face_update_vertex)

lemma g_face_update:
  "g_face (g_update_face f upd gr) f' =
     (if f' = f then map_option upd (g_face gr f) else g_face gr f')"
  by (auto simp: g_update_face_def g_face_def split: option.splits if_splits)

lemma ftracked_update_in:
  assumes "ftracked gr F" "f \<in> F"
  shows "ftracked (g_update_face f upd gr) F"
  using assms by (auto simp: ftracked_def g_face_update split: if_splits)

lemma ftracked_update_same:
  assumes "ftracked gr F" "\<And>x. fstatus (upd x) = fstatus x"
  shows "ftracked (g_update_face f upd gr) F"
  using assms by (auto simp: ftracked_def g_face_update split: if_splits)

lemma clean_tracked: "clean d \<Longrightarrow> tracked d"
proof -
  assume c: "clean d"
  have "vtracked (g d) {}"
    unfolding vtracked_def
  proof (intro allI impI)
    fix v x assume a: "g_vertex (g d) v = Some x" "status x \<noteq> UNDECIDED \<or> in_queue x"
    then have "v < length (vertices (g d))" "vertices (g d) ! v = Some x"
      by (auto simp: g_vertex_def split: if_splits)
    then have "Some x \<in> set (vertices (g d))" by (metis nth_mem)
    with c have "status x = UNDECIDED \<and> \<not> in_queue x"
      by (auto simp: clean_def list_all_iff)
    with a(2) show "v \<in> {}" by simp
  qed
  moreover have "ftracked (g d) {}"
    unfolding ftracked_def
  proof (intro allI impI)
    fix f x assume a: "g_face (g d) f = Some x" "fstatus x = INCIDENT"
    then have "x \<in> set (faces (g d))"
      by (auto simp: g_face_def split: if_splits)
    with c a(2) show "f \<in> {}" by (auto simp: clean_def all_nonincident_def list_all_iff)
  qed
  ultimately show ?thesis using c
    by (simp add: tracked_def clean_def is_heap_def heap_upto_def)
qed

lemma clean_clear_scratch: "clean d \<Longrightarrow> clear_scratch d = d"
  by (simp add: clean_def clear_scratch_def)

text \<open>Marking keeps track.\<close>

lemma tracked_set_status: "tracked d \<Longrightarrow> tracked (set_status v st d)"
  unfolding tracked_def set_status_def
  by (auto intro!: vtracked_update_in intro: vtracked_mono simp: ftracked_update_vertex)

lemma tracked_mark_face: "tracked d \<Longrightarrow> tracked (mark_face f d)"
  unfolding tracked_def mark_face_def
  by (auto intro!: ftracked_update_in intro: ftracked_mono simp: vtracked_update_face)

lemma tracked_fold_mark_face: "tracked d \<Longrightarrow> tracked (fold mark_face fs d)"
  by (induction fs arbitrary: d) (simp_all add: tracked_mark_face)

lemma tracked_v0: "tracked (d\<lparr>v0 := x\<rparr>) = tracked d"
  by (simp add: tracked_def)

lemma tracked_mark_vertex: "tracked d \<Longrightarrow> tracked (mark_vertex v d)"
  by (simp add: mark_vertex_def mark_adjacent_faces_def tracked_fold_mark_face tracked_v0
      tracked_set_status)

lemma tracked_decide_vertex: "tracked d \<Longrightarrow> tracked (decide_vertex v d)"
  by (simp add: decide_vertex_def tracked_mark_vertex tracked_set_status)

lemma set_push: "is_heap c \<Longrightarrow> set (push x c) = insert x (set c)"
  using push_props[of c x] by (metis set_mset_add_mset_insert set_mset_mset)

lemma tracked_queue_vertex: "tracked d \<Longrightarrow> tracked (queue_vertex env s u d)"
proof (cases "g_vertex (g d) u")
  case None
  then show "tracked d \<Longrightarrow> ?thesis" by (simp add: queue_vertex_def)
next
  case (Some x)
  assume t: "tracked d"
  show ?thesis
  proof (cases "status x = UNDECIDED \<and> \<not> in_queue x")
    case False
    with Some t show ?thesis by (auto simp: queue_vertex_def)
  next
    case True
    let ?q = "push (u, vertex_predicate env s (g d) u) (vertexQueue d)"
    have h: "is_heap (vertexQueue d)" using t by (simp add: tracked_def)
    have sq: "set ?q = insert (u, vertex_predicate env s (g d) u) (set (vertexQueue d))"
      by (rule set_push[OF h])
    have "vtracked (g d) (set (modified_vertices d) \<union> fst ` set ?q)"
      using t by (auto simp: tracked_def sq intro: vtracked_mono)
    then have "vtracked (g_update_vertex u (\<lambda>y. y\<lparr>in_queue := True\<rparr>) (g d))
        (set (modified_vertices d) \<union> fst ` set ?q)"
      by (rule vtracked_update_in) (simp add: sq)
    moreover have "is_heap ?q" using push_props[OF h] by simp
    ultimately show ?thesis
      using Some True t by (simp add: queue_vertex_def tracked_def ftracked_update_vertex)
  qed
qed

lemma tracked_fold_queue: "tracked d \<Longrightarrow> tracked (fold (queue_vertex env s) us d)"
  by (induction us arbitrary: d) (simp_all add: tracked_queue_vertex)

lemma tracked_augment_step:
  assumes "tracked d" "augment_step env s d = Some d'"
  shows "tracked d'"
proof -
  from assms(2) obtain v h q where t: "top (vertexQueue d) = Some (v, h)"
    and q: "pop (vertexQueue d) = Some q"
    and d': "d' = fold (queue_vertex env s)
        (adjacent_vertices (g (decide_vertex v (d\<lparr>vertexQueue := q\<rparr>))) v)
        (decide_vertex v (d\<lparr>vertexQueue := q\<rparr>))"
    by (auto simp: augment_step_def Let_def split: option.splits)
  have h: "is_heap (vertexQueue d)" using assms(1) by (simp add: tracked_def)
  from pop_props[OF h q] have hq: "is_heap q" and mq: "mset q = mset (vertexQueue d) - {#vertexQueue d ! 0#}"
    and ne: "vertexQueue d \<noteq> []" by simp_all
  have top: "vertexQueue d ! 0 = (v, h)" using t ne by (simp add: top_def)
  have sub: "set (vertexQueue d) \<subseteq> insert (v, h) (set q)"
  proof
    fix x assume "x \<in> set (vertexQueue d)"
    then have "x \<in># mset (vertexQueue d)" by simp
    then have "x = (v, h) \<or> x \<in># mset q"
      unfolding mq top by (cases "x = (v, h)") (simp_all add: in_diff_count)
    then show "x \<in> insert (v, h) (set q)" by auto
  qed
  let ?d0 = "d\<lparr>vertexQueue := q\<rparr>"
  let ?d1 = "set_status v OUT ?d0"
  \<comment> \<open>the popped vertex is recorded by either branch\<close>
  have "set (modified_vertices d) \<union> fst ` set (vertexQueue d)
      \<subseteq> insert v (set (modified_vertices d) \<union> fst ` set q)"
    using sub by force
  then have vt: "vtracked (g d) (insert v (set (modified_vertices d) \<union> fst ` set q))"
    using assms(1) vtracked_mono by (auto simp: tracked_def)
  have ft: "ftracked (g d) (set (incident_faces d))" using assms(1) by (simp add: tracked_def)
  have out: "tracked (set_status v OUT ?d0)"
    unfolding tracked_def set_status_def using vt ft hq
    by (auto intro!: vtracked_update_in simp: ftracked_update_vertex insert_commute Un_insert_left
        intro: vtracked_mono)
  have inn: "tracked ((set_status v IN ?d0)\<lparr>v0 := v0 ?d0 @ [v]\<rparr>)"
    unfolding tracked_def set_status_def using vt ft hq
    by (auto intro!: vtracked_update_in simp: ftracked_update_vertex insert_commute Un_insert_left
        intro: vtracked_mono)
  have "tracked (decide_vertex v ?d0)"
    using out inn
    by (simp add: decide_vertex_def mark_vertex_def mark_adjacent_faces_def tracked_fold_mark_face)
  then show ?thesis unfolding d' by (rule tracked_fold_queue)
qed

lemma augment_step_None: "augment_step env s d = None \<Longrightarrow> vertexQueue d = []"
  by (auto simp: augment_step_def top_def pop_def Let_def split: option.splits if_splits)

lemma augment_vertex_set_props:
  "tracked d \<Longrightarrow> tracked (augment_vertex_set env s d) \<and> vertexQueue (augment_vertex_set env s d) = []"
proof (induction env s d rule: augment_vertex_set.induct)
  case (1 env s d)
  show ?case
  proof (cases "augment_step env s d")
    case None
    then show ?thesis using 1(2) augment_step_None[OF None]
      by (subst (1 2) augment_vertex_set.simps) simp
  next
    case (Some d')
    from tracked_augment_step[OF 1(2) Some] have "tracked d'" .
    from 1(1)[OF Some this] Some show ?thesis
      by (subst (1 2) augment_vertex_set.simps) simp
  qed
qed

lemma gkeeps_refl: "gkeeps gr gr"
  by (simp add: gkeeps_def)

lemma gkeeps_trans: "gkeeps a b \<Longrightarrow> gkeeps b c \<Longrightarrow> gkeeps a c"
  by (simp add: gkeeps_def)

lemma gkeeps_fold:
  assumes "\<And>x gr. gkeeps gr (fn x gr)"
  shows "gkeeps gr (fold fn xs gr)"
proof (induction xs arbitrary: gr)
  case Nil
  show ?case by (simp add: gkeeps_refl)
next
  case (Cons x xs)
  show ?case using gkeeps_trans[OF assms[of gr x] Cons.IH[of "fn x gr"]] by simp
qed

lemma tracked_gkeeps:
  assumes "tracked d" "gkeeps (g d) gr'"
  shows "tracked (d\<lparr>g := gr'\<rparr>)"
  using assms by (simp add: tracked_def gkeeps_def)

lemma gkeeps_update_vertex_same:
  assumes "\<And>x. status (upd x) = status x" "\<And>x. in_queue (upd x) = in_queue x"
  shows "gkeeps gr (g_update_vertex v upd gr)"
  using assms by (simp add: gkeeps_def vtracked_update_same ftracked_update_vertex)

lemma gkeeps_update_face_same:
  assumes "\<And>x. fstatus (upd x) = fstatus x"
  shows "gkeeps gr (g_update_face f upd gr)"
  using assms by (simp add: gkeeps_def vtracked_update_face ftracked_update_same)

lemma gkeeps_faces_map:
  assumes "\<And>x. fstatus (upd x) = fstatus x"
  shows "gkeeps gr (gr\<lparr>faces := map upd (faces gr)\<rparr>)"
  using assms by (auto simp: gkeeps_def vtracked_def ftracked_def g_vertex_def g_face_def split: if_splits)

lemma gkeeps_add_vertex_in_edge: "gkeeps gr (add_vertex_in_edge v e gr)"
  unfolding add_vertex_in_edge_def by (rule gkeeps_faces_map) simp

lemma gkeeps_add_face: "gkeeps gr (snd (add_face s gr))"
  by (auto simp: gkeeps_def add_face_def vtracked_def ftracked_def g_vertex_def g_face_def
      nth_append split: if_splits)

lemma gkeeps_repair_face: "gkeeps gr (repair_face f via gr)"
  unfolding repair_face_def
  by (auto split: option.splits intro!: gkeeps_update_face_same)

lemma gkeeps_close_face: "gkeeps gr (close_face f pending gr)"
  unfolding close_face_def by (rule gkeeps_update_face_same) simp

lemma gkeeps_remove_vertex: "gkeeps gr (remove_vertex v gr)"
  by (auto simp: gkeeps_def remove_vertex_def vtracked_def ftracked_def g_vertex_def g_face_def
      nth_list_update split: if_splits)

lemma gkeeps_repair_incident_face:
  "gkeeps (fst gp) (fst (repair_incident_face via side f gp))"
  by (cases gp) (simp add: repair_incident_face_def gkeeps_repair_face)

lemma gkeeps_fold_fst:
  assumes "\<And>x gp. gkeeps (fst gp) (fst (fn x gp))"
  shows "gkeeps (fst gp) (fst (fold fn xs gp))"
proof (induction xs arbitrary: gp)
  case Nil
  show ?case by (simp add: gkeeps_refl)
next
  case (Cons x xs)
  show ?case using gkeeps_trans[OF assms[of gp x] Cons.IH[of "fn x gp"]] by simp
qed

lemma gkeeps_repair_line_face:
  "gkeeps (fst gp) (fst (repair_line_face gr0 p1 p2 vs ve side f gp))"
  by (simp add: repair_line_face_def add_separator_def gkeeps_repair_incident_face)

text \<open>New vertices.\<close>

lemma new_vertex_eq:
  "new_vertex p st ty r (cnt, gr) =
     (length (vertices gr), cnt + 1,
      gr\<lparr>vertices := vertices gr @
           [Some \<lparr> status = st, vtype = ty, index = cnt, position = p,
                   clearance = r, in_queue = False \<rparr>]\<rparr>)"
  by (simp add: new_vertex_def)

lemma g_vertex_append:
  "g_vertex (gr\<lparr>vertices := vertices gr @ [y]\<rparr>) v =
     (if v = length (vertices gr) then y else g_vertex gr v)"
  by (auto simp: g_vertex_def nth_append)

lemma g_face_vertices_upd: "g_face (gr\<lparr>vertices := vs\<rparr>) f = g_face gr f"
  by (simp add: g_face_def)

lemma gkeeps_new_undecided:
  "gkeeps gr (snd (snd (new_vertex p UNDECIDED ty r (cnt, gr))))"
  by (auto simp: gkeeps_def new_vertex_eq vtracked_def ftracked_def g_vertex_append
      g_face_vertices_upd split: if_splits)

lemma vtracked_new_recorded:
  assumes "vtracked gr M"
  shows "vtracked (snd (snd (new_vertex p st ty r (cnt, gr)))) (insert (fst (new_vertex p st ty r (cnt, gr))) M)"
  using assms by (auto simp: new_vertex_eq vtracked_def g_vertex_append split: if_splits)

lemma ftracked_new_vertex:
  "ftracked (snd (snd (new_vertex p st ty r (cnt, gr)))) F = ftracked gr F"
  by (simp add: new_vertex_eq ftracked_def g_face_vertices_upd)

lemma tracked_add_new_vertex:
  assumes "tracked (snd cd)"
  shows "tracked (snd (add_new_vertex env s ty e cd))"
proof -
  obtain cnt d where cd: "cd = (cnt, d)" by (cases cd)
  have t: "tracked d" using assms cd by simp
  show ?thesis
  proof (cases "g_vertex (g d) (fst e)")
    case None
    then show ?thesis using t cd by (simp add: add_new_vertex_def)
  next
    case (Some a)
    note a = this
    show ?thesis
    proof (cases "g_vertex (g d) (snd e)")
      case None
      then show ?thesis using t cd a by (simp add: add_new_vertex_def)
    next
      case (Some b)
      obtain p r where pr: "positioner env (map (\<lambda>f. site (faces (g d) ! f)) (edge_faces (g d) e)) s
                     (position a) (position b) = (p, r)" by (cases "positioner env (map (\<lambda>f. site (faces (g d) ! f)) (edge_faces (g d) e)) s
                     (position a) (position b)")
      obtain n c1 g1 where nv: "new_vertex p NEW ty r (cnt, g d) = (n, c1, g1)"
        by (cases "new_vertex p NEW ty r (cnt, g d)")
      have res: "snd (add_new_vertex env s ty e cd) =
          d\<lparr> g := add_vertex_in_edge n e g1, modified_vertices := modified_vertices d @ [n] \<rparr>"
        using cd a Some pr nv by (simp add: add_new_vertex_def)
      have v1: "vtracked g1 (insert n (set (modified_vertices d) \<union> fst ` set (vertexQueue d)))"
        using vtracked_new_recorded[of "g d" _ p NEW ty r cnt] t nv by (simp add: tracked_def)
      have f1: "ftracked g1 (set (incident_faces d))"
        using ftracked_new_vertex[of p NEW ty r cnt "g d"] t nv by (simp add: tracked_def)
      from gkeeps_add_vertex_in_edge[of g1 n e] v1 f1
      have "vtracked (add_vertex_in_edge n e g1) (insert n (set (modified_vertices d) \<union> fst ` set (vertexQueue d)))"
        and "ftracked (add_vertex_in_edge n e g1) (set (incident_faces d))"
        by (simp_all add: gkeeps_def)
      then show ?thesis using t unfolding res by (simp add: tracked_def)
    qed
  qed
qed

lemma queue_add_new_vertex:
  "vertexQueue (snd (add_new_vertex env s ty e cd)) = vertexQueue (snd cd)"
  by (cases cd) (auto simp: add_new_vertex_def split: option.splits prod.splits)

lemma fold_snd_invariant:
  assumes "\<And>x cd. P (snd cd) \<Longrightarrow> P (snd (fn x cd))" "P (snd cd)"
  shows "P (snd (fold fn xs cd))"
  using assms(2)
proof (induction xs arbitrary: cd)
  case Nil
  then show ?case by simp
next
  case (Cons x xs)
  show ?case using Cons.IH[OF assms(1)[OF Cons.prems]] by simp
qed

lemma settled_add_new_vertex:
  "settled (snd cd) \<Longrightarrow> settled (snd (add_new_vertex env s ty e cd))"
  by (simp add: settled_def tracked_add_new_vertex queue_add_new_vertex)

lemma settled_add_vertices: "settled (snd cd) \<Longrightarrow> settled (snd (add_vertices env s cd))"
  unfolding add_vertices_def
  by (rule fold_snd_invariant[where P = settled]) (simp_all add: settled_add_new_vertex)

lemma settled_gkeeps:
  assumes "settled d" "gkeeps (g d) gr'"
  shows "settled (d\<lparr>g := gr'\<rparr>)"
  using assms tracked_gkeeps[of d gr'] by (simp add: settled_def)

lemma settled_split_edge: "settled (snd cd) \<Longrightarrow> settled (snd (split_edge env pt1 pt2 e cd))"
proof -
  assume s: "settled (snd cd)"
  obtain cnt d where cd: "cd = (cnt, d)" by (cases cd)
  show ?thesis
  proof (cases "g_vertex (g d) (fst e)")
    case None
    then show ?thesis using s cd by (simp add: split_edge_def)
  next
    case (Some a)
    note a = this
    show ?thesis
    proof (cases "g_vertex (g d) (snd e)")
      case None
      then show ?thesis using s cd a by (simp add: split_edge_def)
    next
      case (Some b)
      define t where "t = root_finder env (signed_error env (position a) (position b) pt1 pt2)"
      define nv where "nv = new_vertex (edge_curve env (position a) (position b) t) UNDECIDED SPLIT 0 (cnt, g d)"
      have res: "snd (split_edge env pt1 pt2 e cd) = d\<lparr> g := add_vertex_in_edge (fst nv) e (snd (snd nv)) \<rparr>"
        using cd a Some by (simp add: split_edge_def Let_def nv_def t_def split: prod.splits)
      have "gkeeps (g d) (snd (snd nv))" unfolding nv_def by (rule gkeeps_new_undecided)
      then have "gkeeps (g d) (add_vertex_in_edge (fst nv) e (snd (snd nv)))"
        using gkeeps_add_vertex_in_edge gkeeps_trans by blast
      then show ?thesis unfolding res using s cd by (simp add: settled_gkeeps)
    qed
  qed
qed

lemma settled_add_split_vertex:
  "settled (snd cd) \<Longrightarrow> settled (snd (add_split_vertex env f s cd))"
proof (cases s)
  case (PointSite q)
  then show "settled (snd cd) \<Longrightarrow> ?thesis" by (simp add: add_split_vertex_def)
next
  case (LineSite pt1 pt2)
  assume "settled (snd cd)"
  then have "settled (snd (fold (split_edge env pt1 pt2) (find_split_edges env (g (snd cd)) f pt1 pt2) cd))"
    by (intro fold_snd_invariant[where P = settled]) (simp_all add: settled_split_edge)
  then show ?thesis using LineSite by (simp add: add_split_vertex_def)
qed

text \<open>Removal and reset.\<close>

lemma settled_remove_vertex_set: "settled d \<Longrightarrow> settled (remove_vertex_set d)"
proof -
  assume s: "settled d"
  have "gkeeps (g d) (fold remove_vertex (v0 d) (g d))"
    by (rule gkeeps_fold) (rule gkeeps_remove_vertex)
  from settled_gkeeps[OF s this] show ?thesis by (simp add: remove_vertex_set_def)
qed

lemma g_vertex_update_None:
  "g_vertex gr w = None \<Longrightarrow> g_vertex (g_update_vertex a upd gr) w = None"
  by (auto simp add: g_vertex_update)

lemma g_vertex_fold_update_None:
  "g_vertex gr w = None \<Longrightarrow> g_vertex (fold (\<lambda>v. g_update_vertex v upd) vs gr) w = None"
  by (induction vs arbitrary: gr) (simp_all add: g_vertex_update_None)

lemma g_vertex_fold_reset:
  assumes "g_vertex (fold (\<lambda>v. g_update_vertex v (\<lambda>x. x\<lparr>status := UNDECIDED, in_queue := False\<rparr>)) vs gr) w = Some y"
  shows "(w \<in> set vs \<longrightarrow> status y = UNDECIDED \<and> \<not> in_queue y) \<and>
         (w \<notin> set vs \<longrightarrow> g_vertex gr w = Some y) \<and>
         ((\<exists>x. g_vertex gr w = Some x \<and> status x = UNDECIDED \<and> \<not> in_queue x) \<longrightarrow> status y = UNDECIDED \<and> \<not> in_queue y)"
  using assms
proof (induction vs arbitrary: gr)
  case Nil
  then show ?case by simp
next
  case (Cons v vs)
  let ?g = "g_update_vertex v (\<lambda>x. x\<lparr>status := UNDECIDED, in_queue := False\<rparr>) gr"
  from Cons.prems have p: "g_vertex (fold (\<lambda>v. g_update_vertex v (\<lambda>x. x\<lparr>status := UNDECIDED, in_queue := False\<rparr>)) vs ?g) w = Some y"
    by simp
  note ih = Cons.IH[OF p]
  show ?case
  proof (cases "w = v")
    case True
    have "\<exists>x. g_vertex ?g w = Some x \<and> status x = UNDECIDED \<and> \<not> in_queue x \<or> g_vertex ?g w = None"
      using True by (cases "g_vertex gr v") (auto simp: g_vertex_update)
    moreover have "g_vertex ?g w \<noteq> None"
    proof
      assume n: "g_vertex ?g w = None"
      show False
      proof (cases "w \<in> set vs")
        case False
        with ih n show ?thesis by simp
      next
        case True
        from g_vertex_fold_update_None[OF n, of _ vs] p show False by simp

      qed
    qed
    ultimately show ?thesis using ih True by auto
  next
    case False
    then have "g_vertex ?g w = g_vertex gr w" by (simp add: g_vertex_update)
    with ih False show ?thesis by auto
  qed
qed

lemma faces_fold_update_vertex:
  "faces (fold (\<lambda>v. g_update_vertex v upd) vs gr) = faces gr"
  by (induction vs arbitrary: gr) (simp_all add: faces_update_vertex)

lemma g_vertex_fold_update_face:
  "g_vertex (fold (\<lambda>f. g_update_face f upd) fs gr) w = g_vertex gr w"
  by (induction fs arbitrary: gr) (simp_all add: g_vertex_update_face)

lemma g_face_fold_reset:
  assumes "g_face (fold (\<lambda>f. g_update_face f (\<lambda>x. x\<lparr>fstatus := NONINCIDENT\<rparr>)) fs gr) f = Some y"
  shows "(f \<in> set fs \<longrightarrow> fstatus y = NONINCIDENT) \<and>
         (f \<notin> set fs \<longrightarrow> g_face gr f = Some y) \<and>
         ((\<exists>x. g_face gr f = Some x \<and> fstatus x = NONINCIDENT) \<longrightarrow> fstatus y = NONINCIDENT)"
  using assms
proof (induction fs arbitrary: gr)
  case Nil
  then show ?case by simp
next
  case (Cons a fs)
  let ?g = "g_update_face a (\<lambda>x. x\<lparr>fstatus := NONINCIDENT\<rparr>) gr"
  from Cons.prems have p: "g_face (fold (\<lambda>f. g_update_face f (\<lambda>x. x\<lparr>fstatus := NONINCIDENT\<rparr>)) fs ?g) f = Some y"
    by simp
  note ih = Cons.IH[OF p]
  have len: "\<And>fs gr. length (faces (fold (\<lambda>f. g_update_face f (\<lambda>x. x\<lparr>fstatus := NONINCIDENT\<rparr>)) fs gr)) = length (faces gr)"
  proof -
    fix fs :: "HEFace list" and gr
    show "length (faces (fold (\<lambda>f. g_update_face f (\<lambda>x. x\<lparr>fstatus := NONINCIDENT\<rparr>)) fs gr)) = length (faces gr)"
      by (induction fs arbitrary: gr) (auto simp: g_update_face_def split: option.splits)
  qed
  show ?case
  proof (cases "f = a")
    case True
    have fl: "f < length (faces ?g)" using p len[of fs ?g] by (auto simp: g_face_def split: if_splits)
    then have "\<exists>x. g_face ?g f = Some x \<and> fstatus x = NONINCIDENT"
      using True by (auto simp: g_face_update g_face_def g_update_face_def split: if_splits option.splits)
    with ih True show ?thesis by auto
  next
    case False
    then have "g_face ?g f = g_face gr f" by (simp add: g_face_update)
    with ih False show ?thesis by auto
  qed
qed

lemma list_all_vertices:
  "list_all (\<lambda>x. case x of None \<Rightarrow> True | Some y \<Rightarrow> P y) (vertices gr) =
     (\<forall>v y. g_vertex gr v = Some y \<longrightarrow> P y)"
  by (auto simp: list_all_iff g_vertex_def in_set_conv_nth split: option.splits)

lemma list_all_faces:
  "list_all P (faces gr) = (\<forall>f y. g_face gr f = Some y \<longrightarrow> P y)"
proof
  assume "list_all P (faces gr)"
  then show "\<forall>f y. g_face gr f = Some y \<longrightarrow> P y"
    by (auto simp: list_all_iff g_face_def split: if_splits)
next
  assume a: "\<forall>f y. g_face gr f = Some y \<longrightarrow> P y"
  have "P x" if "x \<in> set (faces gr)" for x
  proof -
    from that obtain f where "f < length (faces gr)" "faces gr ! f = x"
      by (auto simp: in_set_conv_nth)
    then have "g_face gr f = Some x" by (simp add: g_face_def)
    with a show ?thesis by blast
  qed
  then show "list_all P (faces gr)" by (simp add: list_all_iff)
qed

lemma clean_reset_status:
  assumes "settled d"
  shows "clean (reset_status d)"
proof -
  let ?gv = "fold (\<lambda>v. g_update_vertex v (\<lambda>x. x\<lparr>status := UNDECIDED, in_queue := False\<rparr>))
                     (modified_vertices d) (g d)"
  let ?g = "fold (\<lambda>f. g_update_face f (\<lambda>x. x\<lparr>fstatus := NONINCIDENT\<rparr>)) (incident_faces d) ?gv"
  have vt: "vtracked (g d) (set (modified_vertices d))"
    and ft: "ftracked (g d) (set (incident_faces d))" and q: "vertexQueue d = []"
    using assms by (auto simp: settled_def tracked_def)
  have v: "status y = UNDECIDED \<and> \<not> in_queue y" if "g_vertex ?g w = Some y" for w y
  proof -
    from that have gy: "g_vertex ?gv w = Some y" by (simp add: g_vertex_fold_update_face)
    note r = g_vertex_fold_reset[OF gy]
    show ?thesis
    proof (cases "w \<in> set (modified_vertices d)")
      case True
      with r show ?thesis by simp
    next
      case False
      with r have "g_vertex (g d) w = Some y" by simp
      with vt False show ?thesis by (auto simp: vtracked_def)
    qed
  qed
  have f: "fstatus y = NONINCIDENT" if "g_face ?g f = Some y" for f y
  proof -
    note r = g_face_fold_reset[OF that]
    show ?thesis
    proof (cases "f \<in> set (incident_faces d)")
      case True
      with r show ?thesis by simp
    next
      case False
      with r have "g_face ?gv f = Some y" by simp
      then have "g_face (g d) f = Some y"
        unfolding g_face_def faces_fold_update_vertex .
      with ft False show ?thesis by (cases "fstatus y") (auto simp: ftracked_def)
    qed
  qed
  have g: "g (reset_status d) = ?g" by (simp add: reset_status_def)
  show ?thesis
    unfolding clean_def all_nonincident_def g list_all_vertices list_all_faces
    using v f q by (auto simp: reset_status_def)
qed

lemma persistent_g [simp]: "persistent (d\<lparr>g := x\<rparr>) = persistent d"
  by (simp add: persistent_def)

lemma persistent_set_status: "persistent (set_status v st d) = persistent d"
  by (simp add: persistent_def set_status_def)

lemma persistent_mark_face: "persistent (mark_face f d) = persistent d"
  by (simp add: persistent_def mark_face_def)

lemma persistent_fold_mark_face: "persistent (fold mark_face fs d) = persistent d"
  by (induction fs arbitrary: d) (simp_all add: persistent_mark_face)

lemma persistent_mark_vertex: "persistent (mark_vertex v d) = persistent d"
proof -
  have "persistent ((set_status v IN d)\<lparr>v0 := v0 d @ [v]\<rparr>) = persistent d"
    using persistent_set_status[of v IN d] by (simp add: persistent_def)
  then show ?thesis
    by (simp add: mark_vertex_def mark_adjacent_faces_def persistent_fold_mark_face)
qed

lemma persistent_decide_vertex: "persistent (decide_vertex v d) = persistent d"
  by (simp add: decide_vertex_def persistent_mark_vertex persistent_set_status)

lemma persistent_queue_vertex: "persistent (queue_vertex env s u d) = persistent d"
  by (simp add: queue_vertex_def persistent_def split: option.splits)

lemma persistent_fold_queue: "persistent (fold (queue_vertex env s) us d) = persistent d"
  by (induction us arbitrary: d) (simp_all add: persistent_queue_vertex)

lemma persistent_augment_step:
  "augment_step env s d = Some d' \<Longrightarrow> persistent d' = persistent d"
proof -
  assume "augment_step env s d = Some d'"
  then obtain v q where "d' = fold (queue_vertex env s)
        (adjacent_vertices (g (decide_vertex v (d\<lparr>vertexQueue := q\<rparr>))) v)
        (decide_vertex v (d\<lparr>vertexQueue := q\<rparr>))"
    by (auto simp: augment_step_def Let_def split: option.splits)
  then show ?thesis
    by (simp add: persistent_fold_queue persistent_decide_vertex) (simp add: persistent_def)
qed

lemma persistent_augment_vertex_set:
  "persistent (augment_vertex_set env s d) = persistent d"
proof (induction env s d rule: augment_vertex_set.induct)
  case (1 env s d)
  show ?case
  proof (cases "augment_step env s d")
    case None
    then show ?thesis by (subst augment_vertex_set.simps) simp
  next
    case (Some d')
    from 1[OF Some] persistent_augment_step[OF Some] Some show ?thesis
      by (subst augment_vertex_set.simps) simp
  qed
qed

lemma persistent_seed_vertex: "persistent (seed_vertex env s v d) = persistent d"
  by (simp add: seed_vertex_def Let_def persistent_def set_status_def)

lemma persistent_add_new_vertex:
  "persistent (snd (add_new_vertex env s ty e cd)) = persistent (snd cd)"
  by (cases cd) (auto simp: add_new_vertex_def persistent_def split: option.splits prod.splits)

lemma fold_snd_eq:
  assumes "\<And>x cd. h (snd (fn x cd)) = h (snd cd)"
  shows "h (snd (fold fn xs cd)) = h (snd cd)"
  by (induction xs arbitrary: cd) (simp_all add: assms)

lemma persistent_add_vertices:
  "persistent (snd (add_vertices env s cd)) = persistent (snd cd)"
  unfolding add_vertices_def by (rule fold_snd_eq) (rule persistent_add_new_vertex)

lemma persistent_split_edge:
  "persistent (snd (split_edge env pt1 pt2 e cd)) = persistent (snd cd)"
  by (cases cd) (auto simp: split_edge_def Let_def persistent_def split: option.splits prod.splits)

lemma persistent_add_split_vertex:
  "persistent (snd (add_split_vertex env f s cd)) = persistent (snd cd)"
proof (cases s)
  case (PointSite q)
  then show ?thesis by (simp add: add_split_vertex_def)
next
  case (LineSite pt1 pt2)
  have "persistent (snd (fold (split_edge env pt1 pt2) es cd)) = persistent (snd cd)" for es
    by (rule fold_snd_eq) (rule persistent_split_edge)
  then show ?thesis using LineSite by (simp add: add_split_vertex_def)
qed

lemma persistent_remove_vertex_set: "persistent (remove_vertex_set d) = persistent d"
  by (simp add: remove_vertex_set_def)

lemma persistent_reset_status: "persistent (reset_status d) = persistent d"
  by (simp add: reset_status_def persistent_def)

lemma persistent_clear_scratch: "persistent (clear_scratch d) = persistent d"
  by (simp add: clear_scratch_def persistent_def)

text \<open>The seed keeps track.\<close>

lemma tracked_seed_vertex: "tracked d \<Longrightarrow> tracked (seed_vertex env s v d)"
proof -
  assume t: "tracked d"
  let ?d1 = "set_status v IN d"
  let ?q = "push (v, vertex_predicate env s (g d) v) (vertexQueue ?d1)"
  have t1: "tracked ?d1" by (rule tracked_set_status[OF t])
  have h: "is_heap (vertexQueue ?d1)" using t1 by (simp add: tracked_def)
  have sq: "set ?q = insert (v, vertex_predicate env s (g d) v) (set (vertexQueue ?d1))"
    by (rule set_push[OF h])
  have "vtracked (g ?d1) (set (modified_vertices ?d1) \<union> fst ` set ?q)"
    using t1 by (auto simp: tracked_def sq intro: vtracked_mono)
  then have "vtracked (g_update_vertex v (\<lambda>x. x\<lparr>in_queue := True\<rparr>) (g ?d1))
      (set (modified_vertices ?d1) \<union> fst ` set ?q)"
    by (rule vtracked_update_in) (simp add: sq)
  moreover have "is_heap ?q" using push_props[OF h] by simp
  ultimately show ?thesis
    using t1 by (simp add: seed_vertex_def Let_def tracked_def ftracked_update_vertex)
qed

lemma tracked_persistent_upd:
  "tracked (d\<lparr>vertex_map := x\<rparr>) = tracked d"
  "tracked (d\<lparr>fgrid := y\<rparr>) = tracked d"
  "tracked (d\<lparr>num_psites := z\<rparr>) = tracked d"
  "tracked (d\<lparr>num_lsites := w\<rparr>) = tracked d"
  by (simp_all add: tracked_def)

lemma clean_persistent_upd:
  "clean (d\<lparr>vertex_map := x\<rparr>) = clean d"
  "clean (d\<lparr>fgrid := y\<rparr>) = clean d"
  "clean (d\<lparr>num_psites := z\<rparr>) = clean d"
  "clean (d\<lparr>num_lsites := w\<rparr>) = clean d"
  by (simp_all add: clean_def)

text \<open>The part of an insertion after the flood fill: vertices, faces, repair, removal
  and reset lead from a tracked diagram to a clean one.\<close>

lemma clean_finish:
  assumes "settled d" "gkeeps (g d) gr'"
  shows "clean (reset_status (remove_vertex_set (d\<lparr>g := gr'\<rparr>)))"
  by (intro clean_reset_status settled_remove_vertex_set settled_gkeeps assms)

lemma insert_point_site_fail:
  assumes "\<not> valid_point_site (clear_scratch d) p"
  shows "insert_point_site env p (cnt, d) = (Inl InvalidSite, cnt, clear_scratch d)"
  using assms by (simp add: insert_point_site_def Let_def)

lemma insert_point_site_ok:
  assumes "valid_point_site (clear_scratch d) p"
  shows "\<exists>c' d'. insert_point_site env p (cnt, d) = (Inr cnt, c', d') \<and>
           num_psites d' = map_option (\<lambda>n. n + 1) (num_psites d) \<and>
           num_lsites d' = num_lsites d \<and> far_radius d' = far_radius d \<and>
           (clean d \<longrightarrow> clean d')"
proof -
  define dc where "dc = clear_scratch d"
  define s where "s = PointSite p"
  define nv where "nv = new_vertex p UNDECIDED POINTSITE 0 (cnt, g dc)"
  define d1 where "d1 = dc\<lparr> g := snd (snd nv), vertex_map := vertex_map dc @ [(cnt, fst nv)] \<rparr>"
  define f0 where "f0 = (case fgrid d1 of None \<Rightarrow> None | Some gr \<Rightarrow> grid_find_closest_face gr p)"
  define seed where "seed = (case f0 of None \<Rightarrow> None | Some f \<Rightarrow> find_seed_vertex env (g d1) f s)"
  define d2 where "d2 = (case seed of None \<Rightarrow> d1 | Some v \<Rightarrow> seed_vertex env s v d1)"
  define d3 where "d3 = augment_vertex_set env s d2"
  define av where "av = add_vertices env s (fst (snd nv), d3)"
  define d4 where "d4 = snd av"
  define af where "af = add_face s (g d4)"
  define rp where "rp = fold (repair_incident_face (\<lambda>f. None) (\<lambda>v. fst af)) (incident_faces d4) (snd af, [])"
  define d5 where "d5 = reset_status (remove_vertex_set (d4\<lparr> g := close_face (fst af) (snd rp) (fst rp) \<rparr>))"
  define d' where "d' = d5\<lparr> fgrid := map_option (\<lambda>gr. gr\<lparr>grid_faces := grid_faces gr @ [(fst af, p)]\<rparr>) (fgrid d5),
                             num_psites := map_option (\<lambda>n. n + 1) (num_psites d5) \<rparr>"
  have res: "insert_point_site env p (cnt, d) = (Inr cnt, fst av, d')"
    using assms
    unfolding d'_def d5_def rp_def af_def d4_def av_def d3_def d2_def seed_def f0_def d1_def
      nv_def s_def dc_def
    by (simp add: insert_point_site_def Let_def split_beta)
  have p1: "persistent d1 = (fgrid d, far_radius d, num_psites d, num_lsites d, vertex_map d @ [(cnt, fst nv)])"
    by (simp add: d1_def dc_def persistent_def clear_scratch_def)
  have p2: "persistent d2 = persistent d1"
    by (simp add: d2_def persistent_seed_vertex split: option.splits)
  have p4: "persistent d4 = persistent d1"
    using persistent_add_vertices[of env s "(fst (snd nv), d3)"]
    by (simp add: d4_def av_def d3_def persistent_augment_vertex_set p2)
  have p5: "persistent d5 = persistent d1"
    by (simp add: d5_def persistent_reset_status persistent_remove_vertex_set p4)
  have cnts: "num_psites d' = map_option (\<lambda>n. n + 1) (num_psites d)"
    "num_lsites d' = num_lsites d" "far_radius d' = far_radius d"
    using p5 p1 by (simp_all add: d'_def persistent_def)
  have cl: "clean d'" if c: "clean d"
  proof -
    have dc: "dc = d" using c by (simp add: dc_def clean_clear_scratch)
    have t0: "tracked d" by (rule clean_tracked[OF c])
    have "gkeeps (g d) (snd (snd nv))" unfolding nv_def dc by (rule gkeeps_new_undecided)
    from tracked_gkeeps[OF t0 this] have t1: "tracked d1"
      by (simp add: d1_def dc tracked_persistent_upd)
    have t2: "tracked d2"
      using t1 by (simp add: d2_def tracked_seed_vertex split: option.splits)
    from augment_vertex_set_props[OF t2] have s3: "settled d3"
      by (simp add: d3_def settled_def)
    have s4: "settled d4"
      using settled_add_vertices[of "(fst (snd nv), d3)" env s] s3 by (simp add: d4_def av_def)
    have k1: "gkeeps (g d4) (snd af)" unfolding af_def by (rule gkeeps_add_face)
    have k2: "gkeeps (snd af) (fst rp)"
      using gkeeps_fold_fst[of "repair_incident_face (\<lambda>f. None) (\<lambda>v. fst af)" "(snd af, [])" "incident_faces d4"]
        gkeeps_repair_incident_face
      by (simp add: rp_def)
    have k3: "gkeeps (fst rp) (close_face (fst af) (snd rp) (fst rp))" by (rule gkeeps_close_face)
    have "clean d5"
      unfolding d5_def
      by (rule clean_finish[OF s4 gkeeps_trans[OF k1 gkeeps_trans[OF k2 k3]]])
    then show ?thesis by (simp add: d'_def clean_def)
  qed
  from res cnts cl show ?thesis by blast
qed

lemma insert_line_site_fail:
  assumes "valid_line_site (clear_scratch d) idx1 idx2 = None"
  shows "insert_line_site env idx1 idx2 (cnt, d) = (False, cnt, clear_scratch d)"
  using assms by (simp add: insert_line_site_def Let_def)

lemma insert_line_site_ok:
  assumes "valid_line_site (clear_scratch d) idx1 idx2 = Some (vs, ve, p1, p2)"
  shows "\<exists>c' d'. insert_line_site env idx1 idx2 (cnt, d) = (True, c', d') \<and>
           num_lsites d' = map_option (\<lambda>n. n + 1) (num_lsites d) \<and>
           num_psites d' = num_psites d \<and> far_radius d' = far_radius d \<and>
           (clean d \<longrightarrow> clean d')"
proof -
  define dc where "dc = clear_scratch d"
  define s where "s = LineSite p1 p2"
  define d1 where "d1 = dc\<lparr> g := g_update_vertex ve (\<lambda>x. x\<lparr>vtype := ENDPOINT\<rparr>)
                                (g_update_vertex vs (\<lambda>x. x\<lparr>vtype := ENDPOINT\<rparr>) (g dc)) \<rparr>"
  define seed where "seed = (case face_of_point (g d1) p1 of
                           None \<Rightarrow> None
                         | Some f \<Rightarrow> find_seed_vertex env (g d1) f s)"
  define d2 where "d2 = (case seed of None \<Rightarrow> d1 | Some v \<Rightarrow> seed_vertex env s v d1)"
  define d3 where "d3 = augment_vertex_set env s d2"
  obtain c1 d4 where av: "add_vertices env s (cnt, d3) = (c1, d4)"
    by (cases "add_vertices env s (cnt, d3)")
  obtain c2 d5 where sv: "fold (\<lambda>f. add_split_vertex env f s)
                                (filter (\<lambda>f. case g_face (g d4) f of
                                                None \<Rightarrow> False
                                              | Some x \<Rightarrow> collinear_with p1 p2 (site x))
                                        (incident_faces d4))
                                (c1, d4) = (c2, d5)"
    by (cases "fold (\<lambda>f. add_split_vertex env f s)
                                (filter (\<lambda>f. case g_face (g d4) f of
                                                None \<Rightarrow> False
                                              | Some x \<Rightarrow> collinear_with p1 p2 (site x))
                                        (incident_faces d4))
                                (c1, d4)")
  obtain new_f1 g6 where af1: "add_face s (g d5) = (new_f1, g6)" by (cases "add_face s (g d5)")
  obtain new_f2 g7 where af2: "add_face s g6 = (new_f2, g7)" by (cases "add_face s g6")
  obtain g8 pending where rp: "fold (repair_line_face g7 p1 p2 vs ve
                                (side_face g7 p1 p2 new_f1 new_f2))
                             (incident_faces d5)
                             (g7, [(new_f1, (vs, ve)), (new_f2, (ve, vs))]) = (g8, pending)"
    by (cases "fold (repair_line_face g7 p1 p2 vs ve
                                (side_face g7 p1 p2 new_f1 new_f2))
                             (incident_faces d5)
                             (g7, [(new_f1, (vs, ve)), (new_f2, (ve, vs))])")
  define d6 where "d6 = reset_status (remove_vertex_set
                          (d5\<lparr> g := close_face new_f2 pending (close_face new_f1 pending g8) \<rparr>))"
  define d' where "d' = d6\<lparr> num_lsites := map_option (\<lambda>n. n + 1) (num_lsites d6) \<rparr>"
  have res: "insert_line_site env idx1 idx2 (cnt, d) = (True, c2, d')"
    using assms av sv af1 af2 rp
    unfolding d'_def d6_def d3_def d2_def seed_def d1_def s_def dc_def
    by (simp add: insert_line_site_def Let_def)
  have p1: "persistent d1 = persistent d"
    by (simp add: d1_def dc_def persistent_clear_scratch)
  have p2: "persistent d2 = persistent d"
    by (simp add: d2_def persistent_seed_vertex p1 split: option.splits)
  have p3: "persistent d3 = persistent d"
    by (simp add: d3_def persistent_augment_vertex_set p2)
  have p4: "persistent d4 = persistent d"
    using persistent_add_vertices[of env s "(cnt, d3)"] by (simp add: av p3)
  have p5: "persistent d5 = persistent d"
    using fold_snd_eq[of persistent "\<lambda>f. add_split_vertex env f s", OF persistent_add_split_vertex,
        of _ "(c1, d4)"] sv
    by (metis p4 snd_conv)
  have p6: "persistent d6 = persistent d"
    by (simp add: d6_def persistent_reset_status persistent_remove_vertex_set p5)
  have cnts: "num_lsites d' = map_option (\<lambda>n. n + 1) (num_lsites d)"
    "num_psites d' = num_psites d" "far_radius d' = far_radius d"
    using p6 by (simp_all add: d'_def persistent_def)
  have cl: "clean d'" if c: "clean d"
  proof -
    have dc: "dc = d" using c by (simp add: dc_def clean_clear_scratch)
    have t0: "tracked d" by (rule clean_tracked[OF c])
    have "gkeeps (g d) (g d1)"
      unfolding d1_def dc
      by (simp, intro gkeeps_trans[OF gkeeps_update_vertex_same gkeeps_update_vertex_same]) simp_all
    from tracked_gkeeps[OF t0 this] have t1: "tracked d1"
      by (simp add: d1_def dc)
    have t2: "tracked d2"
      using t1 by (simp add: d2_def tracked_seed_vertex split: option.splits)
    from augment_vertex_set_props[OF t2] have s3: "settled d3"
      by (simp add: d3_def settled_def)
    have s4: "settled d4"
      using settled_add_vertices[of "(cnt, d3)" env s] s3 by (simp add: av)
    have "settled (snd (fold (\<lambda>f. add_split_vertex env f s)
                                (filter (\<lambda>f. case g_face (g d4) f of
                                                None \<Rightarrow> False
                                              | Some x \<Rightarrow> collinear_with p1 p2 (site x))
                                        (incident_faces d4))
                                (c1, d4)))"
      by (rule fold_snd_invariant[where P = settled]) (simp_all add: settled_add_split_vertex s4)
    then have s5: "settled d5" by (simp add: sv)
    have k1: "gkeeps (g d5) g6" using gkeeps_add_face[of "g d5" s] by (simp add: af1)
    have k2: "gkeeps g6 g7" using gkeeps_add_face[of g6 s] by (simp add: af2)
    have k3: "gkeeps g7 g8"
      using gkeeps_fold_fst[of "repair_line_face g7 p1 p2 vs ve
                                (side_face g7 p1 p2 new_f1 new_f2)"
          "(g7, [(new_f1, (vs, ve)), (new_f2, (ve, vs))])" "incident_faces d5"]
        gkeeps_repair_line_face
      by (simp add: rp)
    have k4: "gkeeps g8 (close_face new_f2 pending (close_face new_f1 pending g8))"
      by (intro gkeeps_trans[OF gkeeps_close_face gkeeps_close_face])
    have "clean d6"
      unfolding d6_def
      by (rule clean_finish[OF s5 gkeeps_trans[OF k1 gkeeps_trans[OF k2 gkeeps_trans[OF k3 k4]]]])
    then show ?thesis by (simp add: d'_def clean_def)
  qed
  from res cnts cl show ?thesis by blast
qed

text \<open>The constructed diagram.\<close>

lemma ctor_fields:
  "far_radius (snd (VoronoiDiagram_ctor far n_bins cnt)) = Some far"
  "num_psites (snd (VoronoiDiagram_ctor far n_bins cnt)) = Some 3"
  "num_lsites (snd (VoronoiDiagram_ctor far n_bins cnt)) = Some 0"
  "g_num_vertices (g (snd (VoronoiDiagram_ctor far n_bins cnt))) = 7"
  by (simp_all add: VoronoiDiagram_ctor_def initialize_def Let_def new_vertex_eq add_face_def
      g_update_face_def g_face_def VoronoiDiagram_default_def g_num_vertices_def)

lemma clean_ctor: "clean (snd (VoronoiDiagram_ctor far n_bins cnt))"
  by (simp add: VoronoiDiagram_ctor_def initialize_def Let_def new_vertex_eq add_face_def
      g_update_face_def g_face_def VoronoiDiagram_default_def clean_def all_nonincident_def)

lemma run_ok_apply:
  assumes "run_ok far st"
  shows "run_ok far (apply_operation env oper st)"
proof -
  obtain outs cnt d where st: "st = (outs, cnt, d)" by (cases st)
  from assms st have c: "clean d" and fr: "far_radius d = Some far"
    and np: "num_psites d = Some (3 + word_of_nat (length (filter point_inserted outs)))"
    and nl: "num_lsites d = Some (word_of_nat (length (filter line_inserted outs)))"
    by (simp_all add: run_ok_def)
  have cs: "clear_scratch d = d" by (rule clean_clear_scratch[OF c])
  show ?thesis
  proof (cases oper)
    case (InsertPoint p)
    show ?thesis
    proof (cases "valid_point_site d p")
      case False
      then have "insert_point_site env p (cnt, d) = (Inl InvalidSite, cnt, d)"
        using insert_point_site_fail[of d p env cnt] cs by simp
      then show ?thesis
        using st InsertPoint c fr np nl
        by (simp add: apply_operation_def run_ok_def point_inserted_def line_inserted_def)
    next
      case True
      then obtain c' d' where r: "insert_point_site env p (cnt, d) = (Inr cnt, c', d')"
        "num_psites d' = map_option (\<lambda>n. n + 1) (num_psites d)"
        "num_lsites d' = num_lsites d" "far_radius d' = far_radius d" "clean d'"
        using insert_point_site_ok[of d p env cnt] cs c by auto
      then show ?thesis
        using st InsertPoint fr np nl
        by (simp add: apply_operation_def run_ok_def point_inserted_def line_inserted_def)
    qed
  next
    case (InsertLine idx1 idx2)
    show ?thesis
    proof (cases "valid_line_site d idx1 idx2")
      case None
      then have "insert_line_site env idx1 idx2 (cnt, d) = (False, cnt, d)"
        using insert_line_site_fail[of d idx1 idx2 env cnt] cs by simp
      then show ?thesis
        using st InsertLine c fr np nl
        by (simp add: apply_operation_def run_ok_def point_inserted_def line_inserted_def)
    next
      case (Some e)
      obtain vs ve p1 p2 where e: "e = (vs, ve, p1, p2)" by (cases e)
      from Some e cs have "valid_line_site (clear_scratch d) idx1 idx2 = Some (vs, ve, p1, p2)"
        by simp
      from insert_line_site_ok[OF this, of env cnt] c obtain c' d' where
        r: "insert_line_site env idx1 idx2 (cnt, d) = (True, c', d')"
        "num_lsites d' = map_option (\<lambda>n. n + 1) (num_lsites d)"
        "num_psites d' = num_psites d" "far_radius d' = far_radius d" "clean d'"
        by auto
      then show ?thesis
        using st InsertLine fr np nl
        by (simp add: apply_operation_def run_ok_def point_inserted_def line_inserted_def)
    qed
  qed
qed

lemma run_ok_fold: "run_ok far st \<Longrightarrow> run_ok far (fold (apply_operation env) ops st)"
  by (induction ops arbitrary: st) (simp_all add: run_ok_apply)

lemma run_ok_run: "run_ok far (run env far n_bins cnt ops)"
  unfolding run_def
  by (rule run_ok_fold) (simp add: run_ok_def split_beta clean_ctor ctor_fields)


lemma apply_operation_log:
  "\<exists>out. fst (apply_operation env oper (outs, cd)) = outs @ [out] \<and> matches_call oper out"
proof (cases oper)
  case (InsertPoint p)
  obtain r cd' where r: "insert_point_site env p cd = (r, cd')" by (cases "insert_point_site env p cd")
  show ?thesis using InsertPoint r
    by (cases r) (simp_all add: apply_operation_def matches_call_def point_inserted_def)
next
  case (InsertLine idx1 idx2)
  obtain ok cd' where r: "insert_line_site env idx1 idx2 cd = (ok, cd')"
    by (cases "insert_line_site env idx1 idx2 cd")
  show ?thesis using InsertLine r
    by (simp add: apply_operation_def matches_call_def)
qed

lemma fold_apply_log:
  "\<exists>outs'. fst (fold (apply_operation env) ops (outs, cd)) = outs @ outs' \<and>
            list_all2 matches_call ops outs'"
proof (induction ops arbitrary: outs cd)
  case Nil
  show ?case by simp
next
  case (Cons oper ops)
  from apply_operation_log[of env oper outs cd] obtain out where
    o: "fst (apply_operation env oper (outs, cd)) = outs @ [out]" "matches_call oper out" by blast
  obtain cd' where st: "apply_operation env oper (outs, cd) = (outs @ [out], cd')"
    using o(1) by (cases "apply_operation env oper (outs, cd)") simp
  from Cons.IH[of "outs @ [out]" cd'] obtain outs' where
    "fst (fold (apply_operation env) ops (outs @ [out], cd')) = (outs @ [out]) @ outs'"
    "list_all2 matches_call ops outs'" by blast
  then show ?case using st o(2) by (intro exI[of _ "out # outs'"]) simp
qed

lemma run_log: "list_all2 matches_call ops (fst (run env far n_bins cnt ops))"
  using fold_apply_log[of env ops "[]" "VoronoiDiagram_ctor far n_bins cnt"]
  by (auto simp: run_def)

text \<open>
  C4. After the construction and after every insertion of a sequence, successful or
  not, every vertex of the diagram is UNDECIDED and every face is NONINCIDENT, and the
  lists of touched vertices and faces are empty: the state after any prefix
  \<open>take k ops\<close> of any sequence of operations.
\<close>

theorem status_reset_between_insertions:
  "all_undecided (g (run_diagram env far n_bins cnt (take k ops))) \<and>
   all_nonincident (g (run_diagram env far n_bins cnt (take k ops))) \<and>
   incident_faces (run_diagram env far n_bins cnt (take k ops)) = [] \<and>
   modified_vertices (run_diagram env far n_bins cnt (take k ops)) = []"
proof -
  have "run_ok far (run env far n_bins cnt (take k ops))" by (rule run_ok_run)
  then have c: "clean (run_diagram env far n_bins cnt (take k ops))"
    by (simp add: run_ok_def run_diagram_def split_beta)
  then have "all_undecided (g (run_diagram env far n_bins cnt (take k ops)))"
    by (auto simp: clean_def all_undecided_def list_all_iff split: option.splits)
  with c show ?thesis by (simp add: clean_def)
qed

text \<open>
  C5. After any sequence of operations, \<open>num_point_sites()\<close> is the number of
  successful \<open>insert_point_site\<close> calls (the three initial generators are not
  counted) and \<open>num_line_sites()\<close> is the number of successful
  \<open>insert_line_site\<close> calls, as 32-bit integers; every outcome belongs to the call
  at its place in the sequence.
\<close>

theorem site_counters_count_successful_insertions:
  "num_point_sites (run_diagram env far n_bins cnt ops) =
     Some (word_of_nat (length (filter point_inserted (fst (run env far n_bins cnt ops))))) \<and>
   num_line_sites (run_diagram env far n_bins cnt ops) =
     Some (word_of_nat (length (filter line_inserted (fst (run env far n_bins cnt ops))))) \<and>
   list_all2 matches_call ops (fst (run env far n_bins cnt ops))"
proof -
  have "run_ok far (run env far n_bins cnt ops)" by (rule run_ok_run)
  then show ?thesis
    by (simp add: run_ok_def run_diagram_def split_beta num_point_sites_def num_line_sites_def
        run_log)
qed




text \<open>
  The two-argument constructor, as modelled from the spec, assigns the three scalar
  members: every accessor returns a value on the diagram it constructs.
\<close>

lemma two_argument_constructor_initialises_members:
  "get_far_radius (snd (VoronoiDiagram_ctor far n_bins cnt)) = Some far \<and>
   num_point_sites (snd (VoronoiDiagram_ctor far n_bins cnt)) = Some 0 \<and>
   num_line_sites (snd (VoronoiDiagram_ctor far n_bins cnt)) = Some 0 \<and>
   num_vertices (snd (VoronoiDiagram_ctor far n_bins cnt)) = Some 7"
  by (simp add: get_far_radius_def num_point_sites_def num_line_sites_def num_vertices_def
      ctor_fields)

text \<open>
  The indices of the vertices follow the static vertex counter. Two runs with the same
  far radius, bin count and (empty) sequence of insertions, one started with the
  counter at 0 and one with the counter at 7, as a diagram built earlier in the same
  process leaves it: the first vertex has index 0 in one and 7 in the other.
\<close>

lemma vertex_indices_follow_static_counter:
  "map_option index (g_vertex (g (run_diagram example_env 10 50 0 [])) 0) = Some 0 \<and>
   map_option index (g_vertex (g (run_diagram example_env 10 50 7 [])) 0) = Some 7 \<and>
   run_diagram example_env 10 50 0 [] \<noteq> run_diagram example_env 10 50 7 []"
proof -
  have a: "map_option index (g_vertex (g (run_diagram example_env 10 50 0 [])) 0) = Some 0"
    by (simp add: run_diagram_def run_def VoronoiDiagram_ctor_def initialize_def Let_def
        new_vertex_eq add_face_def g_update_face_def g_face_def VoronoiDiagram_default_def
        g_vertex_def)
  have b: "map_option index (g_vertex (g (run_diagram example_env 10 50 7 [])) 0) = Some 7"
    by (simp add: run_diagram_def run_def VoronoiDiagram_ctor_def initialize_def Let_def
        new_vertex_eq add_face_def g_update_face_def g_face_def VoronoiDiagram_default_def
        g_vertex_def)
  from a b have "run_diagram example_env 10 50 0 [] \<noteq> run_diagram example_env 10 50 7 []"
    by (metis option.inject zero_neq_numeral)
  with a b show ?thesis by simp
qed

end
